theory Spec2Isabelle
  imports Main "HOL-Library.Monad_Syntax"
begin

section \<open>The free store and the nodes of a bucket list (Bucket.h)\<close>

text \<open>
  A node pointer is an address or \<open>nullptr\<close>. The free store maps every live address to
  the node it holds; \<open>brk\<close> is the next address that \<open>new\<close> hands out. Every function
  that follows a pointer returns \<open>None\<close> when the pointer is null or dangling, and a
  loop that never leaves returns \<open>None\<close> as well: \<open>Some\<close> means that the call returns,
  with the value it returns.

  The pair stored in a node is \<open>Pair<const KeyT, MappedT>\<close>; \<open>default\<close> stands for
  the value-initialised \<open>KeyT()\<close> and \<open>MappedT()\<close>. Keys are compared with the default
  \<open>std::equal_to\<close>, the hash functor is a member of the map and stays arbitrary.
  \<open>m_size\<close> is a \<open>size_t\<close> that counts live nodes; the free store is unbounded here,
  and so is the counter.
\<close>

type_synonym addr = nat
type_synonym ptr = "addr option"

record ('k, 'v) Node =
  m_prev :: ptr
  m_next :: ptr
  m_value :: "'k \<times> 'v"

record ('k, 'v) memory =
  cells :: "addr \<Rightarrow> ('k, 'v) Node option"
  brk :: addr

record Bucket =
  m_size :: nat
  m_end :: ptr

definition deref :: "('k, 'v) memory \<Rightarrow> ptr \<Rightarrow> ('k, 'v) Node option" where
  "deref s p = (case p of None \<Rightarrow> None | Some a \<Rightarrow> cells s a)"

definition set_next :: "ptr \<Rightarrow> ptr \<Rightarrow> ('k, 'v) memory \<Rightarrow> ('k, 'v) memory option" where
  "set_next p q s =
     (case p of None \<Rightarrow> None
      | Some a \<Rightarrow> (case cells s a of None \<Rightarrow> None
          | Some n \<Rightarrow> Some (s\<lparr>cells := (cells s)(a \<mapsto> n\<lparr>m_next := q\<rparr>)\<rparr>)))"

definition set_prev :: "ptr \<Rightarrow> ptr \<Rightarrow> ('k, 'v) memory \<Rightarrow> ('k, 'v) memory option" where
  "set_prev p q s =
     (case p of None \<Rightarrow> None
      | Some a \<Rightarrow> (case cells s a of None \<Rightarrow> None
          | Some n \<Rightarrow> Some (s\<lparr>cells := (cells s)(a \<mapsto> n\<lparr>m_prev := q\<rparr>)\<rparr>)))"

definition store_value :: "ptr \<Rightarrow> 'k \<times> 'v \<Rightarrow> ('k, 'v) memory \<Rightarrow> ('k, 'v) memory option" where
  "store_value p v s =
     (case p of None \<Rightarrow> None
      | Some a \<Rightarrow> (case cells s a of None \<Rightarrow> None
          | Some n \<Rightarrow> Some (s\<lparr>cells := (cells s)(a \<mapsto> n\<lparr>m_value := v\<rparr>)\<rparr>)))"

definition new_Node :: "('k::default, 'v::default) memory \<Rightarrow> ('k, 'v) memory \<times> ptr" where
  "new_Node s =
     (s\<lparr>cells := (cells s)(brk s \<mapsto> \<lparr>m_prev = None, m_next = None, m_value = (default, default)\<rparr>),
        brk := Suc (brk s)\<rparr>,
      Some (brk s))"

definition delete_Node :: "ptr \<Rightarrow> ('k, 'v) memory \<Rightarrow> ('k, 'v) memory option" where
  "delete_Node p s =
     (case p of None \<Rightarrow> Some s
      | Some a \<Rightarrow> (case cells s a of None \<Rightarrow> None
          | Some n \<Rightarrow> Some (s\<lparr>cells := (cells s)(a := None)\<rparr>)))"

section \<open>Bucket\<close>

definition Bucket_new :: "('k::default, 'v::default) memory \<Rightarrow> (('k, 'v) memory \<times> Bucket) option" where
  "Bucket_new s = do {
     (s1, e) \<leftarrow> Some (new_Node s);
     s2 \<leftarrow> set_next e e s1;
     s3 \<leftarrow> set_prev e e s2;
     Some (s3, \<lparr>m_size = 0, m_end = e\<rparr>)
   }"

definition Bucket_begin :: "('k, 'v) memory \<Rightarrow> Bucket \<Rightarrow> ptr option" where
  "Bucket_begin s b = do { e \<leftarrow> deref s (m_end b); Some (m_next e) }"

definition Bucket_end :: "Bucket \<Rightarrow> ptr" where
  "Bucket_end b = m_end b"

partial_function (option) find_loop :: "('k, 'v) memory \<Rightarrow> Bucket \<Rightarrow> 'k \<Rightarrow> ptr \<Rightarrow> ptr option" where
  "find_loop s b key node =
     (if node \<noteq> Bucket_end b then do {
        n \<leftarrow> deref s node;
        if fst (m_value n) = key then Some node
        else find_loop s b key (m_next n)
      } else Some node)"

declare find_loop.simps [code]

definition Bucket_find :: "'k \<Rightarrow> ('k, 'v) memory \<Rightarrow> Bucket \<Rightarrow> ptr option" where
  "Bucket_find key s b = do { node \<leftarrow> Bucket_begin s b; find_loop s b key node }"

definition link_at_tail :: "ptr \<Rightarrow> ('k, 'v) memory \<Rightarrow> Bucket \<Rightarrow> ('k, 'v) memory option" where
  "link_at_tail result s b = do {
     s1 \<leftarrow> set_next result (m_end b) s;
     e \<leftarrow> deref s1 (m_end b);
     s2 \<leftarrow> set_prev result (m_prev e) s1;
     r \<leftarrow> deref s2 result;
     s3 \<leftarrow> set_prev (m_next r) result s2;
     r' \<leftarrow> deref s3 result;
     set_next (m_prev r') result s3
   }"

definition Bucket_insert ::
  "'k \<times> 'v \<Rightarrow> ('k::default, 'v::default) memory \<Rightarrow> Bucket
     \<Rightarrow> (('k, 'v) memory \<times> Bucket \<times> ptr \<times> bool) option" where
  "Bucket_insert value s b = do {
     found \<leftarrow> Bucket_find (fst value) s b;
     if found \<noteq> m_end b then Some (s, b, found, False)
     else do {
       (s1, result) \<leftarrow> Some (new_Node s);
       s2 \<leftarrow> link_at_tail result s1 b;
       s3 \<leftarrow> store_value result value s2;
       Some (s3, b\<lparr>m_size := m_size b + 1\<rparr>, result, True)
     }
   }"

definition Bucket_insert_or_assign ::
  "'k \<times> 'v \<Rightarrow> ('k::default, 'v::default) memory \<Rightarrow> Bucket
     \<Rightarrow> (('k, 'v) memory \<times> Bucket \<times> ptr) option" where
  "Bucket_insert_or_assign value s b = do {
     found \<leftarrow> Bucket_find (fst value) s b;
     (s2, b2, result) \<leftarrow>
       (if found = m_end b then do {
          (s1, result) \<leftarrow> Some (new_Node s);
          s2 \<leftarrow> link_at_tail result s1 b;
          Some (s2, b\<lparr>m_size := m_size b + 1\<rparr>, result)
        } else Some (s, b, found));
     s3 \<leftarrow> store_value result value s2;
     Some (s3, b2, result)
   }"

definition Bucket_erase_node ::
  "ptr \<Rightarrow> ('k, 'v) memory \<Rightarrow> Bucket \<Rightarrow> (('k, 'v) memory \<times> Bucket) option" where
  "Bucket_erase_node node s b =
     (if node = m_end b then Some (s, b)
      else do {
        n \<leftarrow> deref s node;
        s1 \<leftarrow> set_prev (m_next n) (m_prev n) s;
        n1 \<leftarrow> deref s1 node;
        s2 \<leftarrow> set_next (m_prev n1) (m_next n1) s1;
        s3 \<leftarrow> delete_Node node s2;
        Some (s3, b\<lparr>m_size := (if m_size b = 0 then 2 ^ 64 - 1 else m_size b - 1)\<rparr>)
      })"

definition Bucket_erase ::
  "'k \<Rightarrow> ('k, 'v) memory \<Rightarrow> Bucket \<Rightarrow> (('k, 'v) memory \<times> Bucket) option" where
  "Bucket_erase key s b = do { node \<leftarrow> Bucket_find key s b; Bucket_erase_node node s b }"

partial_function (option) Bucket_clear ::
  "('k, 'v) memory \<Rightarrow> Bucket \<Rightarrow> (('k, 'v) memory \<times> Bucket) option" where
  "Bucket_clear s b = do {
     node \<leftarrow> Bucket_begin s b;
     if node \<noteq> Bucket_end b then do {
       (s', b') \<leftarrow> Bucket_erase_node node s b;
       Bucket_clear s' b'
     } else Some (s, b)
   }"

declare Bucket_clear.simps [code]

definition Bucket_size :: "Bucket \<Rightarrow> nat" where
  "Bucket_size b = m_size b"

definition Bucket_empty :: "('k, 'v) memory \<Rightarrow> Bucket \<Rightarrow> bool option" where
  "Bucket_empty s b = do { first \<leftarrow> Bucket_begin s b; Some (first = Bucket_end b) }"

section \<open>Reference (Reference.h)\<close>

record Reference =
  m_node :: ptr

definition Reference_set :: "Reference \<Rightarrow> 'v \<Rightarrow> ('k, 'v) memory \<Rightarrow> ('k, 'v) memory option" where
  "Reference_set r v s = do {
     n \<leftarrow> deref s (m_node r);
     let key = fst (m_value n);
     store_value (m_node r) (key, v) s
   }"

definition Reference_set_pair ::
  "Reference \<Rightarrow> 'k \<times> 'v \<Rightarrow> ('k, 'v) memory \<Rightarrow> ('k, 'v) memory option" where
  "Reference_set_pair r value s = store_value (m_node r) value s"

definition Reference_get :: "Reference \<Rightarrow> ('k, 'v) memory \<Rightarrow> 'v option" where
  "Reference_get r s = do { n \<leftarrow> deref s (m_node r); Some (snd (m_value n)) }"

definition Reference_get_pair :: "Reference \<Rightarrow> ('k, 'v) memory \<Rightarrow> ('k \<times> 'v) option" where
  "Reference_get_pair r s = do { n \<leftarrow> deref s (m_node r); Some (m_value n) }"

section \<open>HashMap and its iterator (HashMap.h, IteratorHelper.h)\<close>

text \<open>
  The map owns the array \<open>m_buckets\<close> of \<open>BUCKET_COUNT\<close> buckets and the hash functor.
  The nodes live in the free store \<open>mem\<close>, which the state carries along.
\<close>

record ('k, 'v) HashMap =
  BUCKET_COUNT :: nat
  m_buckets :: "Bucket list"
  m_hasher :: "'k \<Rightarrow> nat"
  mem :: "('k, 'v) memory"

record IteratorHelper =
  m_index :: nat
  m_ref :: Reference

datatype fault = OutOfRange

text \<open>
  \<open>m_buckets[i]\<close>: the array has no bounds check. \<open>bucket_at\<close> is the checked read.
  The index \<open>m_hasher(key) % BUCKET_COUNT\<close> has no value when \<open>BUCKET_COUNT\<close> is 0.
\<close>

definition bucket_at :: "('k, 'v) HashMap \<Rightarrow> nat \<Rightarrow> Bucket option" where
  "bucket_at m i = (if i < length (m_buckets m) then Some (m_buckets m ! i) else None)"

definition bucket_index :: "('k, 'v) HashMap \<Rightarrow> 'k \<Rightarrow> nat option" where
  "bucket_index m key =
     (if BUCKET_COUNT m = 0 then None else Some (m_hasher m key mod BUCKET_COUNT m))"

definition set_bucket :: "nat \<Rightarrow> Bucket \<Rightarrow> ('k, 'v) memory \<Rightarrow> ('k, 'v) HashMap \<Rightarrow> ('k, 'v) HashMap" where
  "set_bucket i b s m = m\<lparr>m_buckets := (m_buckets m)[i := b], mem := s\<rparr>"

text \<open>
  The constructor of the iterator reads \<open>m_buckets[m_index].end()\<close> whatever the index is.
  Out of range the read has no defined value: \<open>oob\<close> is the pointer it happens to
  find there, and the fault is returned beside the iterator that is built.
\<close>

definition IteratorHelper_new ::
  "ptr \<Rightarrow> ('k, 'v) HashMap \<Rightarrow> nat \<Rightarrow> ptr \<Rightarrow> fault option \<times> IteratorHelper" where
  "IteratorHelper_new oob m index node =
     (case bucket_at m index of
        Some b \<Rightarrow>
          (None, \<lparr>m_index = (if Bucket_end b = node then BUCKET_COUNT m else index),
                  m_ref = \<lparr>m_node = node\<rparr>\<rparr>)
      | None \<Rightarrow>
          (Some OutOfRange, \<lparr>m_index = (if oob = node then BUCKET_COUNT m else index),
                             m_ref = \<lparr>m_node = node\<rparr>\<rparr>))"

definition IteratorHelper_deref :: "IteratorHelper \<Rightarrow> Reference" where
  "IteratorHelper_deref it = m_ref it"

text \<open>
  \<open>do { ++m_index; } while (m_index != BUCKET_COUNT && m_buckets[m_index].empty())\<close>:
  \<open>skip_empty m i\<close> is the loop after its first increment, at index \<open>i\<close>.
\<close>

function skip_empty :: "('k, 'v) HashMap \<Rightarrow> nat \<Rightarrow> nat option" where
  "skip_empty m i =
     (if i \<noteq> BUCKET_COUNT m then
        (case bucket_at m i of None \<Rightarrow> None
         | Some b \<Rightarrow> (case Bucket_empty (mem m) b of None \<Rightarrow> None
             | Some e \<Rightarrow> if e then skip_empty m (Suc i) else Some i))
      else Some i)"
  by pat_completeness auto
termination
  by (relation "measure (\<lambda>(m, i). length (m_buckets m) - i)")
     (auto simp: bucket_at_def split: if_splits)

definition IteratorHelper_incr :: "('k, 'v) HashMap \<Rightarrow> IteratorHelper \<Rightarrow> IteratorHelper option" where
  "IteratorHelper_incr m it = do {
     n \<leftarrow> deref (mem m) (m_node (m_ref it));
     let r = \<lparr>m_node = m_next n\<rparr>;
     b \<leftarrow> bucket_at m (m_index it);
     if m_node r = Bucket_end b then do {
       i \<leftarrow> skip_empty m (Suc (m_index it));
       if i \<noteq> BUCKET_COUNT m then do {
         b' \<leftarrow> bucket_at m i;
         first \<leftarrow> Bucket_begin (mem m) b';
         Some \<lparr>m_index = i, m_ref = \<lparr>m_node = first\<rparr>\<rparr>
       } else Some \<lparr>m_index = i, m_ref = r\<rparr>
     } else Some \<lparr>m_index = m_index it, m_ref = r\<rparr>
   }"

definition IteratorHelper_eq :: "('k, 'v) HashMap \<Rightarrow> IteratorHelper \<Rightarrow> IteratorHelper \<Rightarrow> bool" where
  "IteratorHelper_eq m this that =
     (if m_index this = BUCKET_COUNT m \<and> m_index that = BUCKET_COUNT m then True
      else if m_node (m_ref this) = m_node (m_ref that) then True
      else False)"

text \<open>\<open>new Bucket[BUCKET_COUNT]\<close>: the buckets are constructed in index order.\<close>

primrec new_buckets ::
  "nat \<Rightarrow> ('k::default, 'v::default) memory \<Rightarrow> (('k, 'v) memory \<times> Bucket list) option" where
  "new_buckets 0 s = Some (s, [])"
| "new_buckets (Suc n) s = do {
     (s1, bs) \<leftarrow> new_buckets n s;
     (s2, b) \<leftarrow> Bucket_new s1;
     Some (s2, bs @ [b])
   }"

definition empty_memory :: "('k, 'v) memory" where
  "empty_memory = \<lparr>cells = (\<lambda>a. None), brk = 0\<rparr>"

definition HashMap_new :: "nat \<Rightarrow> ('k \<Rightarrow> nat) \<Rightarrow> ('k::default, 'v::default) HashMap option" where
  "HashMap_new n hash = do {
     (s, bs) \<leftarrow> new_buckets n empty_memory;
     Some \<lparr>BUCKET_COUNT = n, m_buckets = bs, m_hasher = hash, mem = s\<rparr>
   }"

definition HashMap_insert ::
  "ptr \<Rightarrow> 'k \<times> 'v \<Rightarrow> ('k::default, 'v::default) HashMap
     \<Rightarrow> (('k, 'v) HashMap \<times> (fault option \<times> IteratorHelper) \<times> bool) option" where
  "HashMap_insert oob value m = do {
     i \<leftarrow> bucket_index m (fst value);
     b \<leftarrow> bucket_at m i;
     (s', b', node, inserted) \<leftarrow> Bucket_insert value (mem m) b;
     let m' = set_bucket i b' s' m;
     Some (m', IteratorHelper_new oob m' i node, inserted)
   }"

definition HashMap_insert_or_assign ::
  "ptr \<Rightarrow> 'k \<times> 'v \<Rightarrow> ('k::default, 'v::default) HashMap
     \<Rightarrow> (('k, 'v) HashMap \<times> (fault option \<times> IteratorHelper)) option" where
  "HashMap_insert_or_assign oob value m = do {
     i \<leftarrow> bucket_index m (fst value);
     b \<leftarrow> bucket_at m i;
     (s', b', node) \<leftarrow> Bucket_insert_or_assign value (mem m) b;
     let m' = set_bucket i b' s' m;
     Some (m', IteratorHelper_new oob m' i node)
   }"

definition HashMap_erase :: "'k \<Rightarrow> ('k, 'v) HashMap \<Rightarrow> ('k, 'v) HashMap option" where
  "HashMap_erase key m = do {
     i \<leftarrow> bucket_index m key;
     b \<leftarrow> bucket_at m i;
     (s', b') \<leftarrow> Bucket_erase key (mem m) b;
     Some (set_bucket i b' s' m)
   }"

definition HashMap_erase_at ::
  "IteratorHelper \<Rightarrow> ('k, 'v) HashMap \<Rightarrow> (('k, 'v) HashMap \<times> IteratorHelper) option" where
  "HashMap_erase_at position m = do {
     next \<leftarrow> IteratorHelper_incr m position;
     pair \<leftarrow> Reference_get_pair (m_ref position) (mem m);
     let key = fst pair;
     m' \<leftarrow> HashMap_erase key m;
     Some (m', next)
   }"

definition HashMap_find ::
  "ptr \<Rightarrow> 'k \<Rightarrow> ('k, 'v) HashMap \<Rightarrow> (fault option \<times> IteratorHelper) option" where
  "HashMap_find oob key m = do {
     i \<leftarrow> bucket_index m key;
     b \<leftarrow> bucket_at m i;
     result \<leftarrow> Bucket_find key (mem m) b;
     Some (IteratorHelper_new oob m i result)
   }"

definition HashMap_end :: "ptr \<Rightarrow> ('k, 'v) HashMap \<Rightarrow> fault option \<times> IteratorHelper" where
  "HashMap_end oob m = IteratorHelper_new oob m (BUCKET_COUNT m) None"

definition HashMap_subscript ::
  "ptr \<Rightarrow> 'k \<Rightarrow> ('k::default, 'v::default) HashMap \<Rightarrow> (('k, 'v) HashMap \<times> Reference) option" where
  "HashMap_subscript oob key m = do {
     (f, iter) \<leftarrow> HashMap_find oob key m;
     if IteratorHelper_eq m iter (snd (HashMap_end oob m)) then do {
       (m', (f', iter'), inserted) \<leftarrow> HashMap_insert oob (key, default) m;
       Some (m', IteratorHelper_deref iter')
     } else Some (m, IteratorHelper_deref iter)
   }"

function clear_from :: "nat \<Rightarrow> ('k, 'v) HashMap \<Rightarrow> ('k, 'v) HashMap option" where
  "clear_from i m =
     (if i < BUCKET_COUNT m then
        (case bucket_at m i of None \<Rightarrow> None
         | Some b \<Rightarrow> (case Bucket_clear (mem m) b of None \<Rightarrow> None
             | Some (s', b') \<Rightarrow> clear_from (Suc i) (set_bucket i b' s' m)))
      else Some m)"
  by pat_completeness auto
termination
  by (relation "measure (\<lambda>(i, m). BUCKET_COUNT m - i)") (auto simp: set_bucket_def)

definition HashMap_clear :: "('k, 'v) HashMap \<Rightarrow> ('k, 'v) HashMap option" where
  "HashMap_clear m = clear_from 0 m"

function size_from :: "nat \<Rightarrow> nat \<Rightarrow> ('k, 'v) HashMap \<Rightarrow> nat option" where
  "size_from i s m =
     (if i < BUCKET_COUNT m then
        (case bucket_at m i of None \<Rightarrow> None
         | Some b \<Rightarrow> size_from (Suc i) (s + Bucket_size b) m)
      else Some s)"
  by pat_completeness auto
termination
  by (relation "measure (\<lambda>(i, s, m). BUCKET_COUNT m - i)") auto

definition HashMap_size :: "('k, 'v) HashMap \<Rightarrow> nat option" where
  "HashMap_size m = size_from 0 0 m"

function empty_from :: "nat \<Rightarrow> ('k, 'v) HashMap \<Rightarrow> bool option" where
  "empty_from i m =
     (if i < BUCKET_COUNT m then
        (case bucket_at m i of None \<Rightarrow> None
         | Some b \<Rightarrow> (case Bucket_empty (mem m) b of None \<Rightarrow> None
             | Some e \<Rightarrow> if \<not> e then Some False else empty_from (Suc i) m))
      else Some True)"
  by pat_completeness auto
termination
  by (relation "measure (\<lambda>(i, m). BUCKET_COUNT m - i)") auto

definition HashMap_empty :: "('k, 'v) HashMap \<Rightarrow> bool option" where
  "HashMap_empty m = empty_from 0 m"

text \<open>
  \<open>while (bucket_index < BUCKET_COUNT && m_buckets[bucket_index].empty()) ++bucket_index\<close>
\<close>

function first_nonempty :: "nat \<Rightarrow> ('k, 'v) HashMap \<Rightarrow> nat option" where
  "first_nonempty i m =
     (if i < BUCKET_COUNT m then
        (case bucket_at m i of None \<Rightarrow> None
         | Some b \<Rightarrow> (case Bucket_empty (mem m) b of None \<Rightarrow> None
             | Some e \<Rightarrow> if e then first_nonempty (Suc i) m else Some i))
      else Some i)"
  by pat_completeness auto
termination
  by (relation "measure (\<lambda>(i, m). BUCKET_COUNT m - i)") auto

definition HashMap_begin ::
  "ptr \<Rightarrow> ('k, 'v) HashMap \<Rightarrow> (fault option \<times> IteratorHelper) option" where
  "HashMap_begin oob m = do {
     i \<leftarrow> first_nonempty 0 m;
     if i = BUCKET_COUNT m then Some (IteratorHelper_new oob m (BUCKET_COUNT m) None)
     else do {
       b \<leftarrow> bucket_at m i;
       first \<leftarrow> Bucket_begin (mem m) b;
       Some (IteratorHelper_new oob m i first)
     }
   }"


instantiation nat :: default
begin
definition "default = (0::nat)"
instance ..
end

instantiation char :: default
begin
definition "default = CHR 0x00"
instance ..
end

primrec dchain :: "(addr \<Rightarrow> ('k, 'v) Node option) \<Rightarrow> ptr \<Rightarrow> ptr \<Rightarrow> addr list \<Rightarrow> ptr \<Rightarrow> ptr \<Rightarrow> bool" where
  "dchain h pr p [] l q = (p = q \<and> l = pr)"
| "dchain h pr p (a # as) l q =
     (p = Some a \<and> (case h a of None \<Rightarrow> False
        | Some n \<Rightarrow> m_prev n = pr \<and> dchain h (Some a) (m_next n) as l q))"

definition entry :: "('k, 'v) memory \<Rightarrow> addr \<Rightarrow> 'k \<times> 'v" where
  "entry s a = m_value (the (cells s a))"

definition Bucket_wf :: "('k, 'v) memory \<Rightarrow> Bucket \<Rightarrow> addr list \<Rightarrow> bool" where
  "Bucket_wf s b as =
     (case m_end b of None \<Rightarrow> False
      | Some e \<Rightarrow> (case cells s e of None \<Rightarrow> False
          | Some ne \<Rightarrow> e \<notin> set as \<and> distinct as \<and> m_size b = length as \<and>
              dchain (cells s) (Some e) (m_next ne) as (m_prev ne) (Some e)))"

definition cellset :: "Bucket \<Rightarrow> addr list \<Rightarrow> addr set" where
  "cellset b as = set_option (m_end b) \<union> set as"

definition key_at :: "('k, 'v) memory \<Rightarrow> addr \<Rightarrow> 'k" where
  "key_at s a = fst (entry s a)"

definition HashMap_rel :: "('k, 'v) HashMap \<Rightarrow> addr list list \<Rightarrow> bool" where
  "HashMap_rel m ass \<longleftrightarrow>
     0 < BUCKET_COUNT m \<and> length (m_buckets m) = BUCKET_COUNT m \<and> length ass = BUCKET_COUNT m \<and>
     (\<forall>i<BUCKET_COUNT m.
        Bucket_wf (mem m) (m_buckets m ! i) (ass ! i) \<and>
        distinct (map (key_at (mem m)) (ass ! i)) \<and>
        (\<forall>a\<in>set (ass ! i). m_hasher m (key_at (mem m) a) mod BUCKET_COUNT m = i) \<and>
        (\<forall>a\<in>cellset (m_buckets m ! i) (ass ! i). a < brk (mem m))) \<and>
     (\<forall>i<BUCKET_COUNT m. \<forall>j<BUCKET_COUNT m. i \<noteq> j \<longrightarrow>
        cellset (m_buckets m ! i) (ass ! i) \<inter> cellset (m_buckets m ! j) (ass ! j) = {})"

definition HashMap_entries :: "('k, 'v) HashMap \<Rightarrow> addr list list \<Rightarrow> ('k \<times> 'v) list list" where
  "HashMap_entries m ass = map (map (entry (mem m))) ass"

declare size_from.simps [simp del] skip_empty.simps [simp del] clear_from.simps [simp del]
  empty_from.simps [simp del] first_nonempty.simps [simp del]

definition example_cells :: "addr \<Rightarrow> (nat, char) Node option" where
  "example_cells =
     (\<lambda>a. None)
       (0 \<mapsto> \<lparr>m_prev = Some 0, m_next = Some 0, m_value = (0, CHR 0x00)\<rparr>,
        1 \<mapsto> \<lparr>m_prev = Some 5, m_next = Some 3, m_value = (0, CHR 0x00)\<rparr>,
        2 \<mapsto> \<lparr>m_prev = Some 4, m_next = Some 4, m_value = (0, CHR 0x00)\<rparr>,
        3 \<mapsto> \<lparr>m_prev = Some 1, m_next = Some 5, m_value = (1, CHR ''A'')\<rparr>,
        4 \<mapsto> \<lparr>m_prev = Some 2, m_next = Some 2, m_value = (2, CHR ''B'')\<rparr>,
        5 \<mapsto> \<lparr>m_prev = Some 3, m_next = Some 1, m_value = (4, CHR ''D'')\<rparr>)"

definition example_map :: "(nat, char) HashMap" where
  "example_map =
     \<lparr>BUCKET_COUNT = 3,
      m_buckets = [\<lparr>m_size = 0, m_end = Some 0\<rparr>, \<lparr>m_size = 2, m_end = Some 1\<rparr>,
                   \<lparr>m_size = 1, m_end = Some 2\<rparr>],
      m_hasher = (\<lambda>k. k),
      mem = \<lparr>cells = example_cells, brk = 6\<rparr>\<rparr>"

definition example_chains :: "addr list list" where
  "example_chains = [[], [3, 5], [4]]"

definition next_nonempty :: "'a list list \<Rightarrow> nat \<Rightarrow> nat" where
  "next_nonempty xss i = i + length (takeWhile (\<lambda>xs. xs = []) (drop i xss))"

text \<open>
  The range-based loop of the tests, \<open>for (auto elem : hm)\<close>: it starts at \<open>begin()\<close>, stops
  when the iterator compares equal to \<open>end()\<close>, reads \<open>elem.get_pair()\<close> through the
  Reference that \<open>*it\<close> gives and advances with \<open>++it\<close>. The result is the list of the pairs
  read, in the order of the visits. A traversal that never ends is \<open>None\<close>.
\<close>

partial_function (option) traverse_from ::
  "ptr \<Rightarrow> ('k, 'v) HashMap \<Rightarrow> IteratorHelper \<Rightarrow> ('k \<times> 'v) list option" where
  "traverse_from oob m it =
     (if IteratorHelper_eq m it (snd (HashMap_end oob m)) then Some []
      else do {
        p \<leftarrow> Reference_get_pair (IteratorHelper_deref it) (mem m);
        it' \<leftarrow> IteratorHelper_incr m it;
        rest \<leftarrow> traverse_from oob m it';
        Some (p # rest)
      })"

declare traverse_from.simps [code]

definition HashMap_traverse :: "ptr \<Rightarrow> ('k, 'v) HashMap \<Rightarrow> ('k \<times> 'v) list option" where
  "HashMap_traverse oob m = do { (f, it) \<leftarrow> HashMap_begin oob m; traverse_from oob m it }"

text \<open>
  A client of the map: one call of each of the mutating operations, and a sequence of calls
  on the map that the constructor builds. \<open>insert(key, value)\<close> is \<open>insert(make_pair(key, value))\<close>.
\<close>

datatype ('k, 'v) operation =
  Insert 'k 'v | Insert_or_assign 'k 'v | Erase 'k | Subscript 'k | Clear

fun apply_operation ::
  "ptr \<Rightarrow> ('k::default, 'v::default) operation \<Rightarrow> ('k, 'v) HashMap \<Rightarrow> ('k, 'v) HashMap option" where
  "apply_operation oob (Insert k v) m = map_option fst (HashMap_insert oob (k, v) m)"
| "apply_operation oob (Insert_or_assign k v) m = map_option fst (HashMap_insert_or_assign oob (k, v) m)"
| "apply_operation oob (Erase k) m = HashMap_erase k m"
| "apply_operation oob (Subscript k) m = map_option fst (HashMap_subscript oob k m)"
| "apply_operation oob Clear m = HashMap_clear m"

fun run :: "ptr \<Rightarrow> ('k::default, 'v::default) operation list \<Rightarrow> ('k, 'v) HashMap
    \<Rightarrow> ('k, 'v) HashMap option" where
  "run oob [] m = Some m"
| "run oob (x # xs) m = apply_operation oob x m \<bind> run oob xs"

text \<open>
  The contents as the specification describes them: one list of pairs for each bucket, a new
  pair goes to the tail of the bucket \<open>hash(key) mod bucket_count\<close>, \<open>insert\<close> keeps the pair of
  a key that is present, \<open>insert_or_assign\<close> replaces it in place, \<open>erase\<close> drops it, \<open>operator[]\<close>
  adds the default value for an absent key and \<open>clear\<close> empties every bucket.
\<close>

definition spec_append :: "('k \<Rightarrow> nat) \<Rightarrow> 'k \<times> 'v \<Rightarrow> ('k \<times> 'v) list list \<Rightarrow> ('k \<times> 'v) list list" where
  "spec_append h p ess = ess[h (fst p) mod length ess := ess ! (h (fst p) mod length ess) @ [p]]"

fun spec_apply ::
  "('k \<Rightarrow> nat) \<Rightarrow> ('k, 'v::default) operation \<Rightarrow> ('k \<times> 'v) list list \<Rightarrow> ('k \<times> 'v) list list" where
  "spec_apply h (Insert k v) ess =
     (if k \<in> fst ` set (concat ess) then ess else spec_append h (k, v) ess)"
| "spec_apply h (Insert_or_assign k v) ess =
     (if k \<in> fst ` set (concat ess) then map (map (\<lambda>p. if fst p = k then (k, v) else p)) ess
      else spec_append h (k, v) ess)"
| "spec_apply h (Erase k) ess = map (filter (\<lambda>p. fst p \<noteq> k)) ess"
| "spec_apply h (Subscript k) ess =
     (if k \<in> fst ` set (concat ess) then ess else spec_append h (k, default) ess)"
| "spec_apply h Clear ess = map (\<lambda>es. []) ess"

definition spec_run ::
  "('k \<Rightarrow> nat) \<Rightarrow> ('k, 'v::default) operation list \<Rightarrow> ('k \<times> 'v) list list \<Rightarrow> ('k \<times> 'v) list list" where
  "spec_run h ops ess = foldl (\<lambda>e x. spec_apply h x e) ess ops"

section \<open>Properties of the chains\<close>






lemma dchain_append:
  "dchain h pr p (as @ bs) l q = (\<exists>m r. dchain h pr p as m r \<and> dchain h m r bs l q)"
  by (induction as arbitrary: pr p) (auto split: option.splits)

lemma dchain_frame:
  "(\<And>a. a \<in> set as \<Longrightarrow> h' a = h a) \<Longrightarrow> dchain h' pr p as l q = dchain h pr p as l q"
  by (induction as arbitrary: pr p) (auto split: option.splits)

lemma dchain_last:
  "dchain h pr p as l q \<Longrightarrow> l = (if as = [] then pr else Some (last as))"
  by (induction as arbitrary: pr p) (auto split: option.splits if_splits)

lemma dchain_first:
  "dchain h pr p as l q \<Longrightarrow> p = (if as = [] then q else Some (hd as))"
  by (cases as) auto

lemma dchain_alloc:
  "dchain h pr p as l q \<Longrightarrow> a \<in> set as \<Longrightarrow> h a \<noteq> None"
  by (induction as arbitrary: pr p) (auto split: option.splits)

lemma find_loop_chain:
  assumes "m_end b = Some e" "e \<notin> set as" "dchain (cells s) pr p as l (Some e)"
  shows "find_loop s b key p =
           Some (case List.find (\<lambda>a. fst (entry s a) = key) as of None \<Rightarrow> Some e | Some a \<Rightarrow> Some a)"
  using assms(2,3)
proof (induction as arbitrary: pr p)
  case Nil
  then show ?case using assms(1) by (subst find_loop.simps) (simp add: Bucket_end_def)
next
  case (Cons a as)
  then show ?case using assms(1)
    by (subst find_loop.simps) (auto simp: Bucket_end_def deref_def entry_def split: option.splits)
qed

lemma Bucket_begin_wf:
  "Bucket_wf s b as \<Longrightarrow> Bucket_begin s b = Some (if as = [] then m_end b else Some (hd as))"
  by (auto simp: Bucket_wf_def Bucket_begin_def deref_def split: option.splits dest: dchain_first)

lemma Bucket_find_wf:
  assumes "Bucket_wf s b as"
  shows "Bucket_find key s b =
           Some (case List.find (\<lambda>a. fst (entry s a) = key) as of None \<Rightarrow> m_end b | Some a \<Rightarrow> Some a)"
  using assms
  by (auto simp: Bucket_wf_def Bucket_find_def Bucket_begin_def deref_def find_loop_chain
      split: option.splits)

lemma Bucket_empty_wf:
  "Bucket_wf s b as \<Longrightarrow> Bucket_empty s b = Some (as = [])"
  by (auto simp: Bucket_empty_def Bucket_begin_wf Bucket_end_def Bucket_wf_def split: option.splits)

lemma Bucket_wf_frame:
  assumes "m_end b = Some e" "\<And>a. a = e \<or> a \<in> set as \<Longrightarrow> cells s' a = cells s a"
  shows "Bucket_wf s' b as = Bucket_wf s b as"
proof -
  have "dchain (cells s') pr p as l q = dchain (cells s) pr p as l q" for pr p l q
    by (rule dchain_frame) (simp add: assms(2))
  then show ?thesis using assms by (simp add: Bucket_wf_def split: option.splits)
qed

lemma link_at_tail_wf:
  assumes wf: "Bucket_wf s b as" and e: "m_end b = Some e" and r: "r \<noteq> e" "r \<notin> set as"
    and nr: "cells s r = Some nr"
  shows "\<exists>s'. link_at_tail (Some r) s b = Some s' \<and>
           Bucket_wf s' (b\<lparr>m_size := m_size b + 1\<rparr>) (as @ [r]) \<and> brk s' = brk s \<and>
           (\<forall>a. a \<noteq> e \<and> a \<noteq> r \<and> a \<notin> set as \<longrightarrow> cells s' a = cells s a) \<and>
           (\<forall>a. map_option m_value (cells s' a) = map_option m_value (cells s a))"
proof (cases as rule: rev_cases)
  case Nil
  from wf e Nil obtain ne where ne: "cells s e = Some ne" "m_next ne = Some e" "m_prev ne = Some e"
    by (auto simp: Bucket_wf_def split: option.splits)
  let ?h = "(cells s)(r \<mapsto> nr\<lparr>m_next := Some e, m_prev := Some e\<rparr>,
              e \<mapsto> ne\<lparr>m_prev := Some r, m_next := Some r\<rparr>)"
  have res: "link_at_tail (Some r) s b = Some (s\<lparr>cells := ?h\<rparr>)"
    using e r nr ne
    by (simp add: link_at_tail_def set_next_def set_prev_def deref_def)
  have "Bucket_wf (s\<lparr>cells := ?h\<rparr>) (b\<lparr>m_size := m_size b + 1\<rparr>) (as @ [r])"
    using e r Nil wf ne by (simp add: Bucket_wf_def)
  with res show ?thesis using r nr ne by auto
next
  case (snoc bs z)
  from wf e snoc obtain ne where ne0: "cells s e = Some ne"
    and ch0: "dchain (cells s) (Some e) (m_next ne) (bs @ [z]) (m_prev ne) (Some e)"
    and d: "e \<notin> set bs" "z \<noteq> e" "distinct bs" "z \<notin> set bs" "m_size b = Suc (length bs)"
    by (auto simp: Bucket_wf_def split: option.splits)
  have pz: "m_prev ne = Some z" using dchain_last[OF ch0] by simp
  note ne = ne0 pz
  have ch: "dchain (cells s) (Some e) (m_next ne) (bs @ [z]) (Some z) (Some e)"
    using ch0 pz by simp
  from ch obtain m nz where m: "dchain (cells s) (Some e) (m_next ne) bs m (Some z)"
    and nz: "cells s z = Some nz" "m_prev nz = m" "m_next nz = Some e"
    by (auto simp: dchain_append split: option.splits)
  let ?h = "(cells s)(r \<mapsto> nr\<lparr>m_next := Some e, m_prev := Some z\<rparr>, e \<mapsto> ne\<lparr>m_prev := Some r\<rparr>,
              z \<mapsto> nz\<lparr>m_next := Some r\<rparr>)"
  have res: "link_at_tail (Some r) s b = Some (s\<lparr>cells := ?h\<rparr>)"
    using e r nr ne nz d snoc
    by (simp add: link_at_tail_def set_next_def set_prev_def deref_def)
  have fr: "dchain ?h (Some e) (m_next ne) bs m (Some z) = dchain (cells s) (Some e) (m_next ne) bs m (Some z)"
    by (rule dchain_frame) (use d r snoc in auto)
  have "Bucket_wf (s\<lparr>cells := ?h\<rparr>) (b\<lparr>m_size := m_size b + 1\<rparr>) (as @ [r])"
    using e r d snoc m nz fr
    by (auto simp: Bucket_wf_def dchain_append)
  with res show ?thesis using r d snoc nr ne nz by auto
qed

lemma erase_node_wf:
  assumes wf: "Bucket_wf s b as" and e: "m_end b = Some e" and x: "x \<in> set as"
  shows "\<exists>s'. Bucket_erase_node (Some x) s b = Some (s', b\<lparr>m_size := length as - 1\<rparr>) \<and>
           Bucket_wf s' (b\<lparr>m_size := length as - 1\<rparr>) (remove1 x as) \<and> brk s' = brk s \<and>
           cells s' x = None \<and>
           (\<forall>a. a \<noteq> e \<and> a \<notin> set as \<longrightarrow> cells s' a = cells s a) \<and>
           (\<forall>a. a \<noteq> x \<longrightarrow> map_option m_value (cells s' a) = map_option m_value (cells s a))"
proof -
  from x obtain xs ys where as: "as = xs @ x # ys" by (auto dest: split_list)
  from wf e as obtain ne where ne: "cells s e = Some ne"
    and ch: "dchain (cells s) (Some e) (m_next ne) (xs @ x # ys) (m_prev ne) (Some e)"
    and d: "e \<notin> set xs" "e \<notin> set ys" "x \<noteq> e" "distinct xs" "distinct ys" "x \<notin> set xs"
      "x \<notin> set ys" "set xs \<inter> set ys = {}" "m_size b = Suc (length xs + length ys)"
    by (auto simp: Bucket_wf_def split: option.splits)
  from ch obtain m nx where m: "dchain (cells s) (Some e) (m_next ne) xs m (Some x)"
    and nx: "cells s x = Some nx" "m_prev nx = m"
    and t: "dchain (cells s) (Some x) (m_next nx) ys (m_prev ne) (Some e)"
    by (auto simp: dchain_append split: option.splits)
  have rm: "remove1 x as = xs @ ys" using as d by (simp add: remove1_append)
  have sz: "(if m_size b = 0 then 2 ^ 64 - 1 else m_size b - 1) = length as - 1"
    using d as by simp
  show ?thesis
  proof (cases xs rule: rev_cases)
    case Nil
    note xs = Nil
    from m xs have m1: "m_next ne = Some x" "m = Some e" by auto
    show ?thesis
    proof (cases ys)
      case Nil
      from t Nil have t1: "m_next nx = Some e" "m_prev ne = Some x" by auto
      let ?h = "(cells s)(e \<mapsto> ne\<lparr>m_prev := Some e, m_next := Some e\<rparr>, x := None)"
      have res: "Bucket_erase_node (Some x) s b = Some (s\<lparr>cells := ?h\<rparr>, b\<lparr>m_size := length as - 1\<rparr>)"
        using e d ne nx m1 t1 sz
        by (simp add: Bucket_erase_node_def set_next_def set_prev_def deref_def delete_Node_def)
      have "Bucket_wf (s\<lparr>cells := ?h\<rparr>) (b\<lparr>m_size := length as - 1\<rparr>) (remove1 x as)"
        using e d rm xs Nil as by (simp add: Bucket_wf_def)
      with res show ?thesis using d ne as by auto
    next
      case (Cons y ys')
      from t Cons obtain ny where ny: "m_next nx = Some y" "cells s y = Some ny" "m_prev ny = Some x"
        and t2: "dchain (cells s) (Some y) (m_next ny) ys' (m_prev ne) (Some e)"
        by (auto split: option.splits)
      let ?h = "(cells s)(y \<mapsto> ny\<lparr>m_prev := Some e\<rparr>, e \<mapsto> ne\<lparr>m_next := Some y\<rparr>, x := None)"
      have res: "Bucket_erase_node (Some x) s b = Some (s\<lparr>cells := ?h\<rparr>, b\<lparr>m_size := length as - 1\<rparr>)"
        using e d ne nx m1 ny sz Cons
        by (simp add: Bucket_erase_node_def set_next_def set_prev_def deref_def delete_Node_def)
      have fr: "dchain ?h (Some y) (m_next ny) ys' (m_prev ne) (Some e)
                  = dchain (cells s) (Some y) (m_next ny) ys' (m_prev ne) (Some e)"
        by (rule dchain_frame) (use d Cons in auto)
      have "Bucket_wf (s\<lparr>cells := ?h\<rparr>) (b\<lparr>m_size := length as - 1\<rparr>) (remove1 x as)"
        using e d rm xs Cons as t2 fr by (auto simp: Bucket_wf_def)
      with res show ?thesis using d ne ny as Cons by auto
    qed
  next
    case (snoc xs' z)
    note xs = snoc
    have mz: "m = Some z" using dchain_last[OF m] xs by simp
    from m xs mz obtain m' nz where m': "dchain (cells s) (Some e) (m_next ne) xs' m' (Some z)"
      and nz: "cells s z = Some nz" "m_prev nz = m'" "m_next nz = Some x"
      by (auto simp: dchain_append split: option.splits)
    show ?thesis
    proof (cases ys)
      case Nil
      from t Nil have t1: "m_next nx = Some e" "m_prev ne = Some x" by auto
      let ?h = "(cells s)(e \<mapsto> ne\<lparr>m_prev := Some z\<rparr>, z \<mapsto> nz\<lparr>m_next := Some e\<rparr>, x := None)"
      have res: "Bucket_erase_node (Some x) s b = Some (s\<lparr>cells := ?h\<rparr>, b\<lparr>m_size := length as - 1\<rparr>)"
        using e d ne nx nz mz t1 sz xs
        by (simp add: Bucket_erase_node_def set_next_def set_prev_def deref_def delete_Node_def)
      have fr: "dchain ?h (Some e) (m_next ne) xs' m' (Some z)
                  = dchain (cells s) (Some e) (m_next ne) xs' m' (Some z)"
        by (rule dchain_frame) (use d xs in auto)
      have "Bucket_wf (s\<lparr>cells := ?h\<rparr>) (b\<lparr>m_size := length as - 1\<rparr>) (remove1 x as)"
        using e d rm xs Nil as m' nz fr by (auto simp: Bucket_wf_def dchain_append)
      with res show ?thesis using d ne nz as xs by auto
    next
      case (Cons y ys')
      from t Cons obtain ny where ny: "m_next nx = Some y" "cells s y = Some ny" "m_prev ny = Some x"
        and t2: "dchain (cells s) (Some y) (m_next ny) ys' (m_prev ne) (Some e)"
        by (auto split: option.splits)
      let ?h = "(cells s)(y \<mapsto> ny\<lparr>m_prev := Some z\<rparr>, z \<mapsto> nz\<lparr>m_next := Some y\<rparr>, x := None)"
      have yz: "y \<noteq> z" using d xs Cons by auto
      have res: "Bucket_erase_node (Some x) s b = Some (s\<lparr>cells := ?h\<rparr>, b\<lparr>m_size := length as - 1\<rparr>)"
        using e d ne nx nz mz ny sz xs Cons yz
        by (simp add: Bucket_erase_node_def set_next_def set_prev_def deref_def delete_Node_def)
      have fr1: "dchain ?h (Some e) (m_next ne) xs' m' (Some z)
                  = dchain (cells s) (Some e) (m_next ne) xs' m' (Some z)"
        by (rule dchain_frame) (use d xs Cons in auto)
      have fr2: "dchain ?h (Some y) (m_next ny) ys' (m_prev ne) (Some e)
                  = dchain (cells s) (Some y) (m_next ny) ys' (m_prev ne) (Some e)"
        by (rule dchain_frame) (use d xs Cons in auto)
      have "Bucket_wf (s\<lparr>cells := ?h\<rparr>) (b\<lparr>m_size := length as - 1\<rparr>) (remove1 x as)"
        using e d rm xs Cons as m' nz ny t2 fr1 fr2 yz ne
        by (auto simp: Bucket_wf_def dchain_append)
      with res show ?thesis using d ne nz ny as xs Cons by auto
    qed
  qed
qed

lemma dchain_store:
  "h a = Some n \<Longrightarrow> dchain (h(a \<mapsto> n\<lparr>m_value := v\<rparr>)) pr p as l q = dchain h pr p as l q"
  by (induction as arbitrary: pr p) (auto split: option.splits)

lemma Bucket_wf_store:
  assumes "cells s a = Some n"
  shows "Bucket_wf (s\<lparr>cells := (cells s)(a \<mapsto> n\<lparr>m_value := v\<rparr>)\<rparr>) b as = Bucket_wf s b as"
  using assms by (auto simp: Bucket_wf_def dchain_store split: option.splits)

lemma find_None_iff: "List.find P xs = None \<longleftrightarrow> (\<forall>x\<in>set xs. \<not> P x)"
  by (induction xs) auto

lemma Bucket_wf_alloc:
  "Bucket_wf s b as \<Longrightarrow> a \<in> set as \<Longrightarrow> cells s a \<noteq> None"
  by (auto simp: Bucket_wf_def split: option.splits dest: dchain_alloc)

lemma Bucket_insert_absent:
  assumes wf: "Bucket_wf s b as" and e: "m_end b = Some e"
    and fresh: "brk s \<noteq> e" "brk s \<notin> set as"
    and absent: "\<forall>a\<in>set as. fst (entry s a) \<noteq> k"
  shows "\<exists>s'. Bucket_insert (k, v) s b = Some (s', b\<lparr>m_size := m_size b + 1\<rparr>, Some (brk s), True) \<and>
           Bucket_wf s' (b\<lparr>m_size := m_size b + 1\<rparr>) (as @ [brk s]) \<and> brk s' = Suc (brk s) \<and>
           entry s' (brk s) = (k, v) \<and>
           (\<forall>a. a \<noteq> e \<and> a \<noteq> brk s \<and> a \<notin> set as \<longrightarrow> cells s' a = cells s a) \<and>
           (\<forall>a. a \<noteq> brk s \<longrightarrow> map_option m_value (cells s' a) = map_option m_value (cells s a))"
proof -
  let ?r = "brk s"
  let ?nr = "\<lparr>m_prev = None, m_next = None, m_value = (default, default)\<rparr> :: ('a, 'b) Node"
  let ?s1 = "s\<lparr>cells := (cells s)(?r \<mapsto> ?nr), brk := Suc ?r\<rparr>"
  have f: "Bucket_find k s b = Some (m_end b)"
    using absent by (simp add: Bucket_find_wf[OF wf] find_None_iff[THEN iffD2])
  have wf1: "Bucket_wf ?s1 b as"
    using wf fresh by (subst Bucket_wf_frame[OF e, where s = s]) auto
  from link_at_tail_wf[OF wf1 e fresh(1) fresh(2), of ?nr]
  obtain s2 where s2: "link_at_tail (Some ?r) ?s1 b = Some s2"
    and wf2: "Bucket_wf s2 (b\<lparr>m_size := m_size b + 1\<rparr>) (as @ [?r])"
    and b2: "brk s2 = Suc ?r"
    and fr2: "\<forall>a. a \<noteq> e \<and> a \<noteq> ?r \<and> a \<notin> set as \<longrightarrow> cells s2 a = cells ?s1 a"
    and v2: "\<forall>a. map_option m_value (cells s2 a) = map_option m_value (cells ?s1 a)"
    by auto
  from Bucket_wf_alloc[OF wf2, of ?r] obtain n2 where n2: "cells s2 ?r = Some n2" by auto
  let ?s3 = "s2\<lparr>cells := (cells s2)(?r \<mapsto> n2\<lparr>m_value := (k, v)\<rparr>)\<rparr>"
  have st: "store_value (Some ?r) (k, v) s2 = Some ?s3"
    using n2 by (simp add: store_value_def)
  have res: "Bucket_insert (k, v) s b = Some (?s3, b\<lparr>m_size := m_size b + 1\<rparr>, Some ?r, True)"
    using f s2 st by (simp add: Bucket_insert_def new_Node_def)
  have wf3: "Bucket_wf ?s3 (b\<lparr>m_size := m_size b + 1\<rparr>) (as @ [?r])"
    using wf2 by (simp add: Bucket_wf_store[OF n2])
  show ?thesis using res wf3 b2 fr2 v2 by (auto simp: entry_def)
qed

lemma find_Some_D: "List.find P xs = Some x \<Longrightarrow> x \<in> set xs \<and> P x"
  by (induction xs) (auto split: if_splits)

lemma Bucket_find_hit:
  assumes wf: "Bucket_wf s b as" and "a \<in> set as" "fst (entry s a) = k"
    and "distinct (map (\<lambda>a. fst (entry s a)) as)"
  shows "Bucket_find k s b = Some (Some a)"
proof -
  have "List.find (\<lambda>a. fst (entry s a) = k) as = Some a"
    using assms(2-4) by (induction as) (auto simp: image_iff)
  then show ?thesis by (simp add: Bucket_find_wf[OF wf])
qed

lemma Bucket_find_miss:
  assumes wf: "Bucket_wf s b as" and "\<forall>a\<in>set as. fst (entry s a) \<noteq> k"
  shows "Bucket_find k s b = Some (m_end b)"
  using assms(2) by (simp add: Bucket_find_wf[OF wf] find_None_iff[THEN iffD2])

lemma Bucket_wf_end:
  "Bucket_wf s b as \<Longrightarrow> \<exists>e. m_end b = Some e \<and> e \<notin> set as \<and> cells s e \<noteq> None"
  by (auto simp: Bucket_wf_def split: option.splits)

lemma Bucket_insert_present:
  assumes wf: "Bucket_wf s b as" and "a \<in> set as" "fst (entry s a) = k"
    and "distinct (map (\<lambda>a. fst (entry s a)) as)"
  shows "Bucket_insert (k, v) s b = Some (s, b, Some a, False)"
  using Bucket_wf_end[OF wf] assms(2)
  by (auto simp: Bucket_insert_def Bucket_find_hit[OF assms])

lemma Bucket_insert_or_assign_present:
  assumes wf: "Bucket_wf s b as" and a: "a \<in> set as" "fst (entry s a) = k"
    and d: "distinct (map (\<lambda>a. fst (entry s a)) as)"
  shows "\<exists>n. cells s a = Some n \<and>
           Bucket_insert_or_assign (k, v) s b =
             Some (s\<lparr>cells := (cells s)(a \<mapsto> n\<lparr>m_value := (k, v)\<rparr>)\<rparr>, b, Some a)"
proof -
  from Bucket_wf_alloc[OF wf a(1)] obtain n where n: "cells s a = Some n" by auto
  show ?thesis using Bucket_wf_end[OF wf] a(1) n
    by (auto simp: Bucket_insert_or_assign_def Bucket_find_hit[OF wf a d] store_value_def)
qed

lemma Bucket_insert_or_assign_absent:
  assumes wf: "Bucket_wf s b as" and e: "m_end b = Some e"
    and fresh: "brk s \<noteq> e" "brk s \<notin> set as"
    and absent: "\<forall>a\<in>set as. fst (entry s a) \<noteq> k"
  shows "\<exists>s'. Bucket_insert_or_assign (k, v) s b = Some (s', b\<lparr>m_size := m_size b + 1\<rparr>, Some (brk s)) \<and>
           Bucket_insert (k, v) s b = Some (s', b\<lparr>m_size := m_size b + 1\<rparr>, Some (brk s), True)"
proof -
  from Bucket_insert_absent[OF assms, of v] obtain s' where
    s': "Bucket_insert (k, v) s b = Some (s', b\<lparr>m_size := m_size b + 1\<rparr>, Some (brk s), True)"
    by auto
  have f: "Bucket_find k s b = Some (m_end b)" by (rule Bucket_find_miss[OF wf absent])
  from s' show ?thesis using f
    by (auto simp: Bucket_insert_def Bucket_insert_or_assign_def new_Node_def
        split: Option.bind_splits)
qed

lemma Bucket_erase_present:
  assumes wf: "Bucket_wf s b as" and e: "m_end b = Some e" and a: "a \<in> set as" "fst (entry s a) = k"
    and d: "distinct (map (\<lambda>a. fst (entry s a)) as)"
  shows "\<exists>s'. Bucket_erase k s b = Some (s', b\<lparr>m_size := length as - 1\<rparr>) \<and>
           Bucket_wf s' (b\<lparr>m_size := length as - 1\<rparr>) (remove1 a as) \<and> brk s' = brk s \<and>
           cells s' a = None \<and>
           (\<forall>x. x \<noteq> e \<and> x \<notin> set as \<longrightarrow> cells s' x = cells s x) \<and>
           (\<forall>x. x \<noteq> a \<longrightarrow> map_option m_value (cells s' x) = map_option m_value (cells s x))"
  using erase_node_wf[OF wf e a(1)]
  by (simp add: Bucket_erase_def Bucket_find_hit[OF wf a d])

lemma Bucket_erase_absent:
  assumes wf: "Bucket_wf s b as" and "\<forall>a\<in>set as. fst (entry s a) \<noteq> k"
  shows "Bucket_erase k s b = Some (s, b)"
  by (simp add: Bucket_erase_def Bucket_find_miss[OF assms] Bucket_erase_node_def)

lemma Bucket_clear_wf:
  assumes "Bucket_wf s b as" "m_end b = Some e"
  shows "\<exists>s'. Bucket_clear s b = Some (s', b\<lparr>m_size := 0\<rparr>) \<and> Bucket_wf s' (b\<lparr>m_size := 0\<rparr>) [] \<and>
           brk s' = brk s \<and> (\<forall>x\<in>set as. cells s' x = None) \<and>
           (\<forall>x. x \<noteq> e \<and> x \<notin> set as \<longrightarrow> cells s' x = cells s x)"
  using assms
proof (induction as arbitrary: s b)
  case Nil
  then have "b\<lparr>m_size := 0\<rparr> = b" by (simp add: Bucket_wf_def split: option.splits)
  with Nil show ?case
    by (subst Bucket_clear.simps) (simp add: Bucket_begin_wf[OF Nil(1)] Bucket_end_def)
next
  case (Cons a as)
  from erase_node_wf[OF Cons.prems(1) Cons.prems(2), of a]
  obtain s1 where s1: "Bucket_erase_node (Some a) s b = Some (s1, b\<lparr>m_size := length as\<rparr>)"
    and wf1: "Bucket_wf s1 (b\<lparr>m_size := length as\<rparr>) as" and b1: "brk s1 = brk s"
    and c1: "cells s1 a = None"
    and fr1: "\<forall>x. x \<noteq> e \<and> x \<notin> set (a # as) \<longrightarrow> cells s1 x = cells s x"
    by auto
  have e1: "m_end (b\<lparr>m_size := length as\<rparr>) = Some e" using Cons.prems(2) by simp
  from Cons.IH[OF wf1 e1]
  obtain s' where s': "Bucket_clear s1 (b\<lparr>m_size := length as\<rparr>) = Some (s', b\<lparr>m_size := 0\<rparr>)"
    and wf': "Bucket_wf s' (b\<lparr>m_size := 0\<rparr>) []" and b': "brk s' = brk s1"
    and c': "\<forall>x\<in>set as. cells s' x = None"
    and fr': "\<forall>x. x \<noteq> e \<and> x \<notin> set as \<longrightarrow> cells s' x = cells s1 x"
    by auto
  have ne: "Some a \<noteq> m_end b" "a \<notin> set as" "a \<noteq> e"
    using Cons.prems by (auto simp: Bucket_wf_def split: option.splits)
  have res: "Bucket_clear s b = Some (s', b\<lparr>m_size := 0\<rparr>)"
    using ne s1 s'
    by (subst Bucket_clear.simps) (simp add: Bucket_begin_wf[OF Cons.prems(1)] Bucket_end_def)
  show ?case using res wf' b' b1 c' c1 fr' fr1 ne by auto
qed

lemma relD:
  assumes "HashMap_rel m ass"
  shows "0 < BUCKET_COUNT m" "length (m_buckets m) = BUCKET_COUNT m" "length ass = BUCKET_COUNT m"
    and "i < BUCKET_COUNT m \<Longrightarrow> Bucket_wf (mem m) (m_buckets m ! i) (ass ! i)"
    and "i < BUCKET_COUNT m \<Longrightarrow> distinct (map (key_at (mem m)) (ass ! i))"
    and "i < BUCKET_COUNT m \<Longrightarrow> a \<in> set (ass ! i) \<Longrightarrow> m_hasher m (key_at (mem m) a) mod BUCKET_COUNT m = i"
    and "i < BUCKET_COUNT m \<Longrightarrow> a \<in> cellset (m_buckets m ! i) (ass ! i) \<Longrightarrow> a < brk (mem m)"
    and "i < BUCKET_COUNT m \<Longrightarrow> j < BUCKET_COUNT m \<Longrightarrow> i \<noteq> j \<Longrightarrow>
           cellset (m_buckets m ! i) (ass ! i) \<inter> cellset (m_buckets m ! j) (ass ! j) = {}"
  using assms unfolding HashMap_rel_def by blast+

lemma key_at_cong: "cells s' a = cells s a \<Longrightarrow> key_at s' a = key_at s a"
  by (simp add: key_at_def entry_def)

lemma entry_cong: "cells s' a = cells s a \<Longrightarrow> entry s' a = entry s a"
  by (simp add: entry_def)

lemma HashMap_rel_update:
  assumes rel: "HashMap_rel m ass" and i: "i < BUCKET_COUNT m"
    and wf: "Bucket_wf s' b' as'" and e: "m_end b' = m_end (m_buckets m ! i)"
    and brk: "brk (mem m) \<le> brk s'"
    and as': "\<forall>a\<in>set as'. a < brk s' \<and> (a \<in> set (ass ! i) \<or> brk (mem m) \<le> a)"
    and keys: "distinct (map (key_at s') as')"
      "\<forall>a\<in>set as'. m_hasher m (key_at s' a) mod BUCKET_COUNT m = i"
    and frame: "\<forall>a. a < brk (mem m) \<and> a \<notin> cellset (m_buckets m ! i) (ass ! i)
                  \<longrightarrow> cells s' a = cells (mem m) a"
  shows "HashMap_rel (set_bucket i b' s' m) (ass[i := as'])"
proof -
  let ?m = "set_bucket i b' s' m"
  let ?n = "BUCKET_COUNT m"
  note r = relD[OF rel]
  have same: "cells s' a = cells (mem m) a"
    if "j < ?n" "j \<noteq> i" "a \<in> cellset (m_buckets m ! j) (ass ! j)" for j a
  proof -
    have "a < brk (mem m)" using r(7)[OF that(1) that(3)] .
    moreover have "a \<notin> cellset (m_buckets m ! i) (ass ! i)"
      using r(8)[OF i that(1)] that(2,3) by auto
    ultimately show ?thesis using frame by simp
  qed
  have cs_i: "cellset b' as' \<subseteq> cellset (m_buckets m ! i) (ass ! i) \<union> {a. brk (mem m) \<le> a}"
    using as' e by (auto simp: cellset_def)
  have lt_i: "\<forall>a\<in>cellset b' as'. a < brk s'"
  proof
    fix a assume a: "a \<in> cellset b' as'"
    show "a < brk s'"
    proof (cases "a \<in> set as'")
      case True then show ?thesis using as' by simp
    next
      case False
      with a e have "a \<in> cellset (m_buckets m ! i) (ass ! i)" by (auto simp: cellset_def)
      from r(7)[OF i this] brk show ?thesis by simp
    qed
  qed
  have other: "Bucket_wf s' (m_buckets m ! j) (ass ! j) \<and>
      distinct (map (key_at s') (ass ! j)) \<and>
      (\<forall>a\<in>set (ass ! j). m_hasher m (key_at s' a) mod ?n = j) \<and>
      (\<forall>a\<in>cellset (m_buckets m ! j) (ass ! j). a < brk s')"
    if j: "j < ?n" "j \<noteq> i" for j
  proof -
    from Bucket_wf_end[OF r(4)[OF j(1)]] obtain ej where ej: "m_end (m_buckets m ! j) = Some ej"
      by auto
    have c: "cells s' a = cells (mem m) a" if "a = ej \<or> a \<in> set (ass ! j)" for a
      using same[OF j, of a] that ej by (auto simp: cellset_def)
    have 1: "Bucket_wf s' (m_buckets m ! j) (ass ! j)"
      using r(4)[OF j(1)] Bucket_wf_frame[OF ej, of "ass ! j" s' "mem m"] c by blast
    have k: "key_at s' a = key_at (mem m) a" if "a \<in> set (ass ! j)" for a
      using c that by (intro key_at_cong) simp
    have 2: "map (key_at s') (ass ! j) = map (key_at (mem m)) (ass ! j)"
      using k by simp
    have 3: "distinct (map (key_at s') (ass ! j))"
      using r(5)[OF j(1)] by (simp only: 2)
    have 4: "\<forall>a\<in>set (ass ! j). m_hasher m (key_at s' a) mod ?n = j"
      using k r(6)[OF j(1)] by simp
    have 5: "\<forall>a\<in>cellset (m_buckets m ! j) (ass ! j). a < brk s'"
      using r(7)[OF j(1)] brk by (blast intro: less_le_trans)
    show ?thesis using 1 3 4 5 by blast
  qed
  have disj: "cellset b' as' \<inter> cellset (m_buckets m ! j) (ass ! j) = {}"
    if j: "j < ?n" "j \<noteq> i" for j
  proof -
    have "cellset (m_buckets m ! j) (ass ! j) \<inter> {a. brk (mem m) \<le> a} = {}"
      using r(7)[OF j(1)] by (fastforce simp: not_le[symmetric])
    moreover have "cellset (m_buckets m ! i) (ass ! i) \<inter> cellset (m_buckets m ! j) (ass ! j) = {}"
      using r(8)[OF i j(1)] j(2) by auto
    ultimately show ?thesis using cs_i by blast
  qed
  have nth_b: "(m_buckets m)[i := b'] ! j = (if j = i then b' else m_buckets m ! j)" if "j < ?n" for j
    using that r(2) by (simp add: nth_list_update)
  have nth_a: "ass[i := as'] ! j = (if j = i then as' else ass ! j)" if "j < ?n" for j
    using that r(3) by (simp add: nth_list_update)
  show ?thesis
    unfolding HashMap_rel_def
  proof (intro conjI allI impI)
    show "0 < BUCKET_COUNT ?m" using r(1) by (simp add: set_bucket_def)
    show "length (m_buckets ?m) = BUCKET_COUNT ?m" using r(2) by (simp add: set_bucket_def)
    show "length (ass[i := as']) = BUCKET_COUNT ?m" using r(3) by (simp add: set_bucket_def)
  next
    fix j assume j: "j < BUCKET_COUNT ?m"
    then have j': "j < ?n" by (simp add: set_bucket_def)
    show "Bucket_wf (mem ?m) (m_buckets ?m ! j) (ass[i := as'] ! j)"
      using wf other[OF j'] nth_b[OF j'] nth_a[OF j'] by (cases "j = i") (auto simp: set_bucket_def)
    show "distinct (map (key_at (mem ?m)) (ass[i := as'] ! j))"
      using keys other[OF j'] nth_a[OF j'] by (cases "j = i") (auto simp: set_bucket_def)
    show "\<forall>a\<in>set (ass[i := as'] ! j). m_hasher ?m (key_at (mem ?m) a) mod BUCKET_COUNT ?m = j"
      using keys other[OF j'] nth_a[OF j'] by (cases "j = i") (auto simp: set_bucket_def)
    show "\<forall>a\<in>cellset (m_buckets ?m ! j) (ass[i := as'] ! j). a < brk (mem ?m)"
      using lt_i other[OF j'] nth_a[OF j'] nth_b[OF j'] by (cases "j = i") (auto simp: set_bucket_def)
  next
    fix j k assume "j < BUCKET_COUNT ?m" "k < BUCKET_COUNT ?m" "j \<noteq> k"
    then have jk: "j < ?n" "k < ?n" "j \<noteq> k" by (simp_all add: set_bucket_def)
    show "cellset (m_buckets ?m ! j) (ass[i := as'] ! j) \<inter>
          cellset (m_buckets ?m ! k) (ass[i := as'] ! k) = {}"
    proof (cases "j = i")
      case True
      then show ?thesis using disj[OF jk(2)] jk nth_a nth_b by (simp add: set_bucket_def)
    next
      case False
      show ?thesis
      proof (cases "k = i")
        case True
        then show ?thesis using disj[OF jk(1)] jk nth_a nth_b False
          by (simp add: set_bucket_def Int_commute)
      next
        case k: False
        then show ?thesis using r(8)[OF jk] jk nth_a nth_b False by (simp add: set_bucket_def)
      qed
    qed
  qed
qed

lemma entry_eq:
  "map_option m_value (cells s' a) = map_option m_value (cells s a) \<Longrightarrow> entry s' a = entry s a"
  by (cases "cells s' a"; cases "cells s a") (auto simp: entry_def)

lemma bucket_index_rel:
  "HashMap_rel m ass \<Longrightarrow> bucket_index m k = Some (m_hasher m k mod BUCKET_COUNT m)"
  by (simp add: bucket_index_def HashMap_rel_def)

lemma bucket_at_rel:
  "HashMap_rel m ass \<Longrightarrow> i < BUCKET_COUNT m \<Longrightarrow> bucket_at m i = Some (m_buckets m ! i)"
  by (simp add: bucket_at_def HashMap_rel_def)

lemma hash_lt: "HashMap_rel m ass \<Longrightarrow> m_hasher m k mod BUCKET_COUNT m < BUCKET_COUNT m"
  by (simp add: HashMap_rel_def)

lemma set_bucket_simps [simp]:
  "BUCKET_COUNT (set_bucket i b s m) = BUCKET_COUNT m"
  "m_hasher (set_bucket i b s m) = m_hasher m"
  "mem (set_bucket i b s m) = s"
  "m_buckets (set_bucket i b s m) = (m_buckets m)[i := b]"
  by (simp_all add: set_bucket_def)

lemma IteratorHelper_new_node:
  assumes "i < length (m_buckets m)" "m_end (m_buckets m ! i) \<noteq> node"
  shows "IteratorHelper_new oob m i node = (None, \<lparr>m_index = i, m_ref = \<lparr>m_node = node\<rparr>\<rparr>)"
  using assms by (simp add: IteratorHelper_new_def bucket_at_def Bucket_end_def)

lemma IteratorHelper_new_end:
  assumes "i < length (m_buckets m)" "m_end (m_buckets m ! i) = node"
  shows "IteratorHelper_new oob m i node =
           (None, \<lparr>m_index = BUCKET_COUNT m, m_ref = \<lparr>m_node = node\<rparr>\<rparr>)"
  using assms by (simp add: IteratorHelper_new_def bucket_at_def Bucket_end_def)

lemma HashMap_insert_absent:
  assumes rel: "HashMap_rel m ass" and i: "i = m_hasher m k mod BUCKET_COUNT m"
    and absent: "\<forall>a\<in>set (ass ! i). key_at (mem m) a \<noteq> k"
  shows "\<exists>m'. HashMap_insert oob (k, v) m =
             Some (m', (None, \<lparr>m_index = i, m_ref = \<lparr>m_node = Some (brk (mem m))\<rparr>\<rparr>), True) \<and>
           HashMap_rel m' (ass[i := ass ! i @ [brk (mem m)]]) \<and>
           BUCKET_COUNT m' = BUCKET_COUNT m \<and> m_hasher m' = m_hasher m \<and>
           entry (mem m') (brk (mem m)) = (k, v) \<and>
           (\<forall>a. a \<noteq> brk (mem m) \<longrightarrow>
              map_option m_value (cells (mem m') a) = map_option m_value (cells (mem m) a))"
proof -
  note r = relD[OF rel]
  let ?b = "m_buckets m ! i" and ?s = "mem m" and ?r = "brk (mem m)"
  have il: "i < BUCKET_COUNT m" using i hash_lt[OF rel] by simp
  from Bucket_wf_end[OF r(4)[OF il]] obtain e where e: "m_end ?b = Some e" by auto
  have lt: "e < ?r" "\<forall>a\<in>set (ass ! i). a < ?r"
    using r(7)[OF il] e by (auto simp: cellset_def)
  then have fresh: "?r \<noteq> e" "?r \<notin> set (ass ! i)" by auto
  have ab: "\<forall>a\<in>set (ass ! i). fst (entry ?s a) \<noteq> k" using absent by (simp add: key_at_def)
  from Bucket_insert_absent[OF r(4)[OF il] e fresh ab, of v]
  obtain s' where s': "Bucket_insert (k, v) ?s ?b = Some (s', ?b\<lparr>m_size := m_size ?b + 1\<rparr>, Some ?r, True)"
    and wf': "Bucket_wf s' (?b\<lparr>m_size := m_size ?b + 1\<rparr>) (ass ! i @ [?r])"
    and b': "brk s' = Suc ?r" and en: "entry s' ?r = (k, v)"
    and fr: "\<forall>a. a \<noteq> e \<and> a \<noteq> ?r \<and> a \<notin> set (ass ! i) \<longrightarrow> cells s' a = cells ?s a"
    and vs: "\<forall>a. a \<noteq> ?r \<longrightarrow> map_option m_value (cells s' a) = map_option m_value (cells ?s a)"
    by blast
  let ?b' = "?b\<lparr>m_size := m_size ?b + 1\<rparr>"
  let ?m' = "set_bucket i ?b' s' m"
  have ka: "key_at s' a = key_at ?s a" if "a \<noteq> ?r" for a
    using vs that entry_eq[of s' a ?s] by (simp add: key_at_def)
  have kr: "key_at s' ?r = k" using en by (simp add: key_at_def)
  have keys1: "distinct (map (key_at s') (ass ! i @ [?r]))"
  proof -
    have me: "map (key_at s') (ass ! i) = map (key_at ?s) (ass ! i)"
    proof (rule map_cong[OF refl])
      fix x assume "x \<in> set (ass ! i)"
      then have "x \<noteq> ?r" using fresh by auto
      then show "key_at s' x = key_at ?s x" by (rule ka)
    qed
    have d: "distinct (map (key_at s') (ass ! i))"
      using r(5)[OF il] unfolding me .
    have "k \<notin> set (map (key_at ?s) (ass ! i))" using absent by auto
    then have "k \<notin> set (map (key_at s') (ass ! i))" unfolding me .
    with d kr show ?thesis by simp
  qed
  have keys2: "\<forall>a\<in>set (ass ! i @ [?r]). m_hasher m (key_at s' a) mod BUCKET_COUNT m = i"
  proof
    fix a assume a: "a \<in> set (ass ! i @ [?r])"
    show "m_hasher m (key_at s' a) mod BUCKET_COUNT m = i"
    proof (cases "a = ?r")
      case True
      then show ?thesis using kr i by simp
    next
      case False
      with a have "a \<in> set (ass ! i)" by simp
      from r(6)[OF il this] ka[OF False] show ?thesis by simp
    qed
  qed
  have rel': "HashMap_rel ?m' (ass[i := ass ! i @ [?r]])"
  proof (rule HashMap_rel_update[OF rel il wf' _ _ _ keys1 keys2])
    show "m_end ?b' = m_end ?b" by simp
    show "?r \<le> brk s'" using b' by simp
    show "\<forall>a\<in>set (ass ! i @ [?r]). a < brk s' \<and> (a \<in> set (ass ! i) \<or> ?r \<le> a)"
      using lt b' by auto
    show "\<forall>a. a < ?r \<and> a \<notin> cellset ?b (ass ! i) \<longrightarrow> cells s' a = cells ?s a"
      using fr e by (auto simp: cellset_def)
  qed
  have it: "IteratorHelper_new oob ?m' i (Some ?r) =
              (None, \<lparr>m_index = i, m_ref = \<lparr>m_node = Some ?r\<rparr>\<rparr>)"
    using il r(2) e fresh by (intro IteratorHelper_new_node) auto
  have res: "HashMap_insert oob (k, v) m = Some (?m', (None, \<lparr>m_index = i, m_ref = \<lparr>m_node = Some ?r\<rparr>\<rparr>), True)"
    using bucket_index_rel[OF rel, of k] bucket_at_rel[OF rel il] s' it i
    by (simp add: HashMap_insert_def)
  show ?thesis using res rel' en vs by auto
qed

lemma HashMap_insert_present:
  assumes rel: "HashMap_rel m ass" and i: "i = m_hasher m k mod BUCKET_COUNT m"
    and a: "a \<in> set (ass ! i)" "key_at (mem m) a = k"
  shows "HashMap_insert oob (k, v) m =
           Some (m, (None, \<lparr>m_index = i, m_ref = \<lparr>m_node = Some a\<rparr>\<rparr>), False)"
proof -
  note r = relD[OF rel]
  let ?b = "m_buckets m ! i" and ?s = "mem m"
  have il: "i < BUCKET_COUNT m" using i hash_lt[OF rel] by simp
  from Bucket_wf_end[OF r(4)[OF il]] a obtain e where e: "m_end ?b = Some e" "e \<noteq> a" by auto
  have d: "distinct (map (\<lambda>a. fst (entry ?s a)) (ass ! i))"
    using r(5)[OF il] by (simp add: key_at_def[abs_def])
  have bi: "Bucket_insert (k, v) ?s ?b = Some (?s, ?b, Some a, False)"
    using a by (intro Bucket_insert_present[OF r(4)[OF il] _ _ d]) (auto simp: key_at_def)
  have sb: "set_bucket i ?b ?s m = m" using il r(2) by (simp add: set_bucket_def)
  have it: "IteratorHelper_new oob m i (Some a) = (None, \<lparr>m_index = i, m_ref = \<lparr>m_node = Some a\<rparr>\<rparr>)"
    using il r(2) e by (intro IteratorHelper_new_node) auto
  have "HashMap_insert oob (k, v) m =
          Some (set_bucket i ?b ?s m, IteratorHelper_new oob (set_bucket i ?b ?s m) i (Some a), False)"
    using bucket_index_rel[OF rel, of k] bucket_at_rel[OF rel il] bi i
    by (simp add: HashMap_insert_def Let_def)
  then show ?thesis by (simp only: sb it)
qed

lemma Bucket_wf_size: "Bucket_wf s b as \<Longrightarrow> m_size b = length as"
  by (auto simp: Bucket_wf_def split: option.splits)

lemma size_from_rel:
  "HashMap_rel m ass \<Longrightarrow> i \<le> BUCKET_COUNT m \<Longrightarrow>
     size_from i s m = Some (s + length (concat (drop i ass)))"
proof (induction i s m rule: size_from.induct)
  case (1 i s m)
  note rel = "1.prems"(1)
  note r = relD[OF rel]
  show ?case
  proof (cases "i < BUCKET_COUNT m")
    case True
    have d: "drop i ass = ass ! i # drop (Suc i) ass"
      using True r(3) by (simp add: Cons_nth_drop_Suc)
    have "size_from (Suc i) (s + Bucket_size (m_buckets m ! i)) m =
            Some (s + Bucket_size (m_buckets m ! i) + length (concat (drop (Suc i) ass)))"
      using True bucket_at_rel[OF rel True] rel by (intro "1.IH") auto
    then show ?thesis
      using True bucket_at_rel[OF rel True] Bucket_wf_size[OF r(4)[OF True]] d
      by (subst size_from.simps) (simp add: Bucket_size_def)
  next
    case False
    with "1.prems" r(3) show ?thesis by (subst size_from.simps) simp
  qed
qed

lemma HashMap_size_rel:
  "HashMap_rel m ass \<Longrightarrow> HashMap_size m = Some (length (concat ass))"
  by (simp add: HashMap_size_def size_from_rel)

lemma HashMap_end_eq:
  "length (m_buckets m) = BUCKET_COUNT m \<Longrightarrow>
     HashMap_end oob m = (Some OutOfRange, \<lparr>m_index = BUCKET_COUNT m, m_ref = \<lparr>m_node = None\<rparr>\<rparr>)"
  by (simp add: HashMap_end_def IteratorHelper_new_def bucket_at_def)

lemma HashMap_find_hit:
  assumes rel: "HashMap_rel m ass" and i: "i = m_hasher m k mod BUCKET_COUNT m"
    and a: "a \<in> set (ass ! i)" "key_at (mem m) a = k"
  shows "HashMap_find oob k m = Some (None, \<lparr>m_index = i, m_ref = \<lparr>m_node = Some a\<rparr>\<rparr>)"
proof -
  note r = relD[OF rel]
  have il: "i < BUCKET_COUNT m" using i hash_lt[OF rel] by simp
  from Bucket_wf_end[OF r(4)[OF il]] a obtain e where e: "m_end (m_buckets m ! i) = Some e" "e \<noteq> a"
    by auto
  have d: "distinct (map (\<lambda>a. fst (entry (mem m) a)) (ass ! i))"
    using r(5)[OF il] by (simp add: key_at_def[abs_def])
  have f: "Bucket_find k (mem m) (m_buckets m ! i) = Some (Some a)"
    using a by (intro Bucket_find_hit[OF r(4)[OF il] _ _ d]) (auto simp: key_at_def)
  have it: "IteratorHelper_new oob m i (Some a) = (None, \<lparr>m_index = i, m_ref = \<lparr>m_node = Some a\<rparr>\<rparr>)"
    using il r(2) e by (intro IteratorHelper_new_node) auto
  show ?thesis
    using bucket_index_rel[OF rel, of k] bucket_at_rel[OF rel il] f it i
    by (simp add: HashMap_find_def)
qed

lemma HashMap_find_miss:
  assumes rel: "HashMap_rel m ass" and i: "i = m_hasher m k mod BUCKET_COUNT m"
    and absent: "\<forall>a\<in>set (ass ! i). key_at (mem m) a \<noteq> k"
  shows "HashMap_find oob k m =
           Some (None, \<lparr>m_index = BUCKET_COUNT m, m_ref = \<lparr>m_node = m_end (m_buckets m ! i)\<rparr>\<rparr>)"
proof -
  note r = relD[OF rel]
  have il: "i < BUCKET_COUNT m" using i hash_lt[OF rel] by simp
  have f: "Bucket_find k (mem m) (m_buckets m ! i) = Some (m_end (m_buckets m ! i))"
    using absent by (intro Bucket_find_miss[OF r(4)[OF il]]) (auto simp: key_at_def)
  have it: "IteratorHelper_new oob m i (m_end (m_buckets m ! i)) =
              (None, \<lparr>m_index = BUCKET_COUNT m, m_ref = \<lparr>m_node = m_end (m_buckets m ! i)\<rparr>\<rparr>)"
    using il r(2) by (intro IteratorHelper_new_end) auto
  show ?thesis
    using bucket_index_rel[OF rel, of k] bucket_at_rel[OF rel il] f it i
    by (simp add: HashMap_find_def)
qed

lemma entries_update:
  assumes "i < length ass"
    and "\<And>j. j < length ass \<Longrightarrow> j \<noteq> i \<Longrightarrow> map (entry s') (ass ! j) = map (entry s) (ass ! j)"
  shows "map (map (entry s')) (ass[i := as']) = (map (map (entry s)) ass)[i := map (entry s') as']"
  using assms by (intro nth_equalityI) (auto simp: nth_list_update)

text \<open>A key of the map lies in the chain of the bucket it hashes to.\<close>

lemma key_in_entries:
  assumes rel: "HashMap_rel m ass"
  shows "k \<in> fst ` set (concat (HashMap_entries m ass)) \<longleftrightarrow>
         (\<exists>a\<in>set (ass ! (m_hasher m k mod BUCKET_COUNT m)). key_at (mem m) a = k)"
proof
  note r = relD[OF rel]
  assume "k \<in> fst ` set (concat (HashMap_entries m ass))"
  then obtain as a where as: "as \<in> set ass" "a \<in> set as" "key_at (mem m) a = k"
    by (auto simp: HashMap_entries_def key_at_def)
  then obtain j where j: "j < BUCKET_COUNT m" "as = ass ! j"
    using r(3) by (auto simp: in_set_conv_nth)
  from r(6)[OF j(1), of a] as j have "m_hasher m k mod BUCKET_COUNT m = j" by simp
  with as j show "\<exists>a\<in>set (ass ! (m_hasher m k mod BUCKET_COUNT m)). key_at (mem m) a = k"
    by auto
next
  note r = relD[OF rel]
  assume "\<exists>a\<in>set (ass ! (m_hasher m k mod BUCKET_COUNT m)). key_at (mem m) a = k"
  then obtain a where a: "a \<in> set (ass ! (m_hasher m k mod BUCKET_COUNT m))" "key_at (mem m) a = k"
    by auto
  have "ass ! (m_hasher m k mod BUCKET_COUNT m) \<in> set ass"
    using hash_lt[OF rel, of k] r(3) by simp
  with a show "k \<in> fst ` set (concat (HashMap_entries m ass))"
    by (force simp: HashMap_entries_def key_at_def)
qed

lemma pair_in_entries:
  assumes rel: "HashMap_rel m ass"
  shows "(k, v) \<in> set (concat (HashMap_entries m ass)) \<longleftrightarrow>
         (\<exists>a\<in>set (ass ! (m_hasher m k mod BUCKET_COUNT m)). entry (mem m) a = (k, v))"
proof
  note r = relD[OF rel]
  assume "(k, v) \<in> set (concat (HashMap_entries m ass))"
  then obtain as a where as: "as \<in> set ass" "a \<in> set as" "entry (mem m) a = (k, v)"
    by (auto simp: HashMap_entries_def)
  then obtain j where j: "j < BUCKET_COUNT m" "as = ass ! j"
    using r(3) by (auto simp: in_set_conv_nth)
  from r(6)[OF j(1), of a] as j have "m_hasher m k mod BUCKET_COUNT m = j"
    by (simp add: key_at_def)
  with as j show "\<exists>a\<in>set (ass ! (m_hasher m k mod BUCKET_COUNT m)). entry (mem m) a = (k, v)"
    by auto
next
  note r = relD[OF rel]
  assume "\<exists>a\<in>set (ass ! (m_hasher m k mod BUCKET_COUNT m)). entry (mem m) a = (k, v)"
  then obtain a where a: "a \<in> set (ass ! (m_hasher m k mod BUCKET_COUNT m))" "entry (mem m) a = (k, v)"
    by auto
  have "ass ! (m_hasher m k mod BUCKET_COUNT m) \<in> set ass"
    using hash_lt[OF rel, of k] r(3) by simp
  with a show "(k, v) \<in> set (concat (HashMap_entries m ass))"
    by (force simp: HashMap_entries_def)
qed

lemma rel_alloc:
  assumes rel: "HashMap_rel m ass" and "i < BUCKET_COUNT m" "a \<in> set (ass ! i)"
  shows "\<exists>n. cells (mem m) a = Some n \<and> m_value n = entry (mem m) a"
  using Bucket_wf_alloc[OF relD(4)[OF rel assms(2)] assms(3)] by (auto simp: entry_def)

lemma Reference_get_pair_node:
  "cells s a = Some n \<Longrightarrow> Reference_get_pair \<lparr>m_node = Some a\<rparr> s = Some (m_value n)"
  by (simp add: Reference_get_pair_def deref_def)


lemma concat_update:
  "i < length xss \<Longrightarrow>
     concat (xss[i := ys]) = concat (take i xss) @ ys @ concat (drop (Suc i) xss)"
  by (simp add: upd_conv_take_nth_drop)

lemma concat_nth:
  "i < length xss \<Longrightarrow> concat xss = concat (take i xss) @ xss ! i @ concat (drop (Suc i) xss)"
  using concat_update[of i xss "xss ! i"] by simp

lemma rel_lt_brk:
  assumes "HashMap_rel m ass" "j < BUCKET_COUNT m" "a \<in> set (ass ! j)"
  shows "a < brk (mem m)"
  using relD(7)[OF assms(1,2), of a] assms(3) by (simp add: cellset_def)

lemma HashMap_insert_new:
  assumes rel: "HashMap_rel m ass"
    and absent: "k \<notin> fst ` set (concat (HashMap_entries m ass))"
  shows "\<exists>m'. HashMap_insert oob (k, v) m =
             Some (m', (None, \<lparr>m_index = m_hasher m k mod BUCKET_COUNT m,
                               m_ref = \<lparr>m_node = Some (brk (mem m))\<rparr>\<rparr>), True) \<and>
           HashMap_rel m' (ass[m_hasher m k mod BUCKET_COUNT m :=
                               ass ! (m_hasher m k mod BUCKET_COUNT m) @ [brk (mem m)]]) \<and>
           HashMap_entries m' (ass[m_hasher m k mod BUCKET_COUNT m :=
                               ass ! (m_hasher m k mod BUCKET_COUNT m) @ [brk (mem m)]]) =
             (HashMap_entries m ass)[m_hasher m k mod BUCKET_COUNT m :=
                HashMap_entries m ass ! (m_hasher m k mod BUCKET_COUNT m) @ [(k, v)]] \<and>
           BUCKET_COUNT m' = BUCKET_COUNT m \<and> m_hasher m' = m_hasher m \<and>
           entry (mem m') (brk (mem m)) = (k, v)"
proof -
  let ?i = "m_hasher m k mod BUCKET_COUNT m" and ?r = "brk (mem m)"
  note r = relD[OF rel]
  have il: "?i < BUCKET_COUNT m" by (rule hash_lt[OF rel])
  have ab: "\<forall>a\<in>set (ass ! ?i). key_at (mem m) a \<noteq> k"
    using absent key_in_entries[OF rel, of k] by blast
  from HashMap_insert_absent[OF rel refl ab, of oob v]
  obtain m' where res: "HashMap_insert oob (k, v) m =
        Some (m', (None, \<lparr>m_index = ?i, m_ref = \<lparr>m_node = Some ?r\<rparr>\<rparr>), True)"
    and rel': "HashMap_rel m' (ass[?i := ass ! ?i @ [?r]])"
    and same: "BUCKET_COUNT m' = BUCKET_COUNT m" "m_hasher m' = m_hasher m"
    and en: "entry (mem m') ?r = (k, v)"
    and vs: "\<forall>a. a \<noteq> ?r \<longrightarrow>
              map_option m_value (cells (mem m') a) = map_option m_value (cells (mem m) a)"
    by blast
  have old: "map (entry (mem m')) (ass ! j) = map (entry (mem m)) (ass ! j)"
    if j: "j < BUCKET_COUNT m" for j
  proof (rule map_cong[OF refl])
    fix a assume "a \<in> set (ass ! j)"
    then have "a \<noteq> ?r" using rel_lt_brk[OF rel j] by auto
    then show "entry (mem m') a = entry (mem m) a" using vs by (intro entry_eq) simp
  qed
  have "map (map (entry (mem m'))) (ass[?i := ass ! ?i @ [?r]]) =
          (map (map (entry (mem m))) ass)[?i := map (entry (mem m')) (ass ! ?i @ [?r])]"
    using il r(3) old by (intro entries_update) auto
  also have "map (entry (mem m')) (ass ! ?i @ [?r]) = map (entry (mem m)) (ass ! ?i) @ [(k, v)]"
    using old[OF il] en by simp
  also have "map (entry (mem m)) (ass ! ?i) = map (map (entry (mem m))) ass ! ?i"
    using il r(3) by simp
  finally have "HashMap_entries m' (ass[?i := ass ! ?i @ [?r]]) =
      (HashMap_entries m ass)[?i := HashMap_entries m ass ! ?i @ [(k, v)]]"
    by (simp add: HashMap_entries_def)
  with res rel' same en show ?thesis by blast
qed

lemma HashMap_insert_old:
  assumes rel: "HashMap_rel m ass"
    and present: "(k, v1) \<in> set (concat (HashMap_entries m ass))"
  shows "\<exists>a n. a \<in> set (ass ! (m_hasher m k mod BUCKET_COUNT m)) \<and>
           cells (mem m) a = Some n \<and> m_value n = (k, v1) \<and>
           HashMap_insert oob (k, v) m =
             Some (m, (None, \<lparr>m_index = m_hasher m k mod BUCKET_COUNT m,
                              m_ref = \<lparr>m_node = Some a\<rparr>\<rparr>), False)"
proof -
  let ?i = "m_hasher m k mod BUCKET_COUNT m"
  from present pair_in_entries[OF rel, of k v1]
  obtain a where a: "a \<in> set (ass ! ?i)" "entry (mem m) a = (k, v1)" by blast
  from rel_alloc[OF rel hash_lt[OF rel] a(1)] a(2)
  obtain n where n: "cells (mem m) a = Some n" "m_value n = (k, v1)" by auto
  have "key_at (mem m) a = k" using a(2) by (simp add: key_at_def)
  from HashMap_insert_present[OF rel refl a(1) this, of oob v] a(1) n show ?thesis by blast
qed


lemma lt3: "(i::nat) < 3 \<longleftrightarrow> i = 0 \<or> i = 1 \<or> i = 2"
  by auto

lemma example_rel: "HashMap_rel example_map example_chains"
  unfolding HashMap_rel_def
  by (simp add: example_map_def example_chains_def example_cells_def lt3 Bucket_wf_def
      cellset_def key_at_def entry_def)

lemma example_built:
  "HashMap_new 3 (\<lambda>k. k) \<bind> (\<lambda>m0.
     HashMap_insert None (1, CHR ''A'') m0 \<bind> (\<lambda>(m1, _).
     HashMap_insert None (2, CHR ''B'') m1 \<bind> (\<lambda>(m2, _).
     HashMap_insert None (4, CHR ''D'') m2 \<bind> (\<lambda>(m3, _). Some (m_buckets m3, map (cells (mem m3)) [0..<7], brk (mem m3)))))) = Some (m_buckets example_map, map (cells (mem example_map)) [0..<7], brk (mem example_map))"
  by code_simp

lemma example_size: "HashMap_size example_map = Some 3"
  by code_simp

lemma example_entries:
  "HashMap_entries example_map example_chains = [[], [(1, CHR ''A''), (4, CHR ''D'')], [(2, CHR ''B'')]]"
  by (simp add: HashMap_entries_def example_map_def example_chains_def example_cells_def entry_def)


lemma map_remove1_filter:
  assumes "distinct (map f as)" "a \<in> set as"
  shows "map g (remove1 a as) = map g (filter (\<lambda>x. f x \<noteq> f a) as)"
  using assms
proof (induction as)
  case Nil
  then show ?case by simp
next
  case (Cons x as)
  show ?case
  proof (cases "x = a")
    case True
    with Cons.prems have "\<forall>y\<in>set as. f y \<noteq> f a" by (auto simp: image_iff)
    then have "filter (\<lambda>x. f x \<noteq> f a) as = as" by (simp add: filter_id_conv)
    with True show ?thesis by simp
  next
    case False
    with Cons.prems have "f x \<noteq> f a" "a \<in> set as" "distinct (map f as)" by auto
    with Cons.IH False show ?thesis by simp
  qed
qed

lemma distinct_map_filter: "distinct (map f xs) \<Longrightarrow> distinct (map f (filter P xs))"
  by (induction xs) auto

lemma remove1_filter_key:
  assumes "distinct (map f as)" "a \<in> set as"
  shows "remove1 a as = filter (\<lambda>x. f x \<noteq> f a) as"
  using map_remove1_filter[OF assms, of "\<lambda>x. x"] by simp

lemma HashMap_erase_absent:
  assumes rel: "HashMap_rel m ass"
    and absent: "k \<notin> fst ` set (concat (HashMap_entries m ass))"
  shows "HashMap_erase k m = Some m"
proof -
  let ?i = "m_hasher m k mod BUCKET_COUNT m"
  note r = relD[OF rel]
  have il: "?i < BUCKET_COUNT m" by (rule hash_lt[OF rel])
  have ab: "\<forall>a\<in>set (ass ! ?i). fst (entry (mem m) a) \<noteq> k"
    using absent key_in_entries[OF rel, of k] by (auto simp: key_at_def)
  have sb: "set_bucket ?i (m_buckets m ! ?i) (mem m) m = m"
    using il r(2) by (simp add: set_bucket_def)
  have "HashMap_erase k m = Some (set_bucket ?i (m_buckets m ! ?i) (mem m) m)"
    using bucket_index_rel[OF rel, of k] bucket_at_rel[OF rel il]
      Bucket_erase_absent[OF r(4)[OF il] ab]
    by (simp add: HashMap_erase_def)
  then show ?thesis by (simp only: sb)
qed

lemma HashMap_erase_node:
  assumes rel: "HashMap_rel m ass" and i: "i = m_hasher m k mod BUCKET_COUNT m"
    and a: "a \<in> set (ass ! i)" "key_at (mem m) a = k"
  shows "\<exists>m'. HashMap_erase k m = Some m' \<and>
           HashMap_rel m' (ass[i := remove1 a (ass ! i)]) \<and>
           BUCKET_COUNT m' = BUCKET_COUNT m \<and> m_hasher m' = m_hasher m \<and>
           m_buckets m' = (m_buckets m)[i := (m_buckets m ! i)\<lparr>m_size := length (ass ! i) - 1\<rparr>] \<and>
           brk (mem m') = brk (mem m) \<and> cells (mem m') a = None \<and>
           (\<forall>x. x \<noteq> a \<longrightarrow>
              map_option m_value (cells (mem m') x) = map_option m_value (cells (mem m) x))"
proof -
  note r = relD[OF rel]
  let ?b = "m_buckets m ! i" and ?s = "mem m"
  have il: "i < BUCKET_COUNT m" using i hash_lt[OF rel] by simp
  from Bucket_wf_end[OF r(4)[OF il]] obtain e where e: "m_end ?b = Some e" by auto
  have d: "distinct (map (\<lambda>a. fst (entry ?s a)) (ass ! i))"
    using r(5)[OF il] by (simp add: key_at_def[abs_def])
  have ka: "fst (entry ?s a) = k" using a(2) by (simp add: key_at_def)
  let ?b' = "?b\<lparr>m_size := length (ass ! i) - 1\<rparr>"
  from Bucket_erase_present[OF r(4)[OF il] e a(1) ka d]
  obtain s' where s': "Bucket_erase k ?s ?b = Some (s', ?b')"
    and wf': "Bucket_wf s' ?b' (remove1 a (ass ! i))"
    and b': "brk s' = brk ?s" and gone: "cells s' a = None"
    and fr: "\<forall>x. x \<noteq> e \<and> x \<notin> set (ass ! i) \<longrightarrow> cells s' x = cells ?s x"
    and vs: "\<forall>x. x \<noteq> a \<longrightarrow> map_option m_value (cells s' x) = map_option m_value (cells ?s x)"
    by blast
  let ?m' = "set_bucket i ?b' s' m"
  have dis: "distinct (ass ! i)" using r(5)[OF il] by (simp add: distinct_map)
  have kx: "key_at s' x = key_at ?s x" if "x \<noteq> a" for x
    using vs that entry_eq[of s' x ?s] by (simp add: key_at_def)
  have na: "x \<noteq> a" if "x \<in> set (remove1 a (ass ! i))" for x
    using that dis by auto
  have me: "map (key_at s') (remove1 a (ass ! i)) = map (key_at ?s) (remove1 a (ass ! i))"
    by (rule map_cong[OF refl]) (use kx na in blast)
  have "distinct (map (key_at ?s) (remove1 a (ass ! i)))"
    using r(5)[OF il] by (simp add: remove1_filter_key[OF r(5)[OF il] a(1)] distinct_map_filter)
  then have keys1: "distinct (map (key_at s') (remove1 a (ass ! i)))" unfolding me .
  have keys2: "\<forall>x\<in>set (remove1 a (ass ! i)). m_hasher m (key_at s' x) mod BUCKET_COUNT m = i"
  proof
    fix x assume x: "x \<in> set (remove1 a (ass ! i))"
    then have "x \<in> set (ass ! i)" using set_remove1_subset[of a "ass ! i"] by auto
    from r(6)[OF il this] kx[OF na[OF x]] show "m_hasher m (key_at s' x) mod BUCKET_COUNT m = i"
      by simp
  qed
  have rel': "HashMap_rel ?m' (ass[i := remove1 a (ass ! i)])"
  proof (rule HashMap_rel_update[OF rel il wf' _ _ _ keys1 keys2])
    show "m_end ?b' = m_end ?b" by simp
    show "brk ?s \<le> brk s'" using b' by simp
    show "\<forall>x\<in>set (remove1 a (ass ! i)). x < brk s' \<and> (x \<in> set (ass ! i) \<or> brk ?s \<le> x)"
      using rel_lt_brk[OF rel il] b' set_remove1_subset[of a "ass ! i"] by auto
    show "\<forall>x. x < brk ?s \<and> x \<notin> cellset ?b (ass ! i) \<longrightarrow> cells s' x = cells ?s x"
      using fr e by (auto simp: cellset_def)
  qed
  have res: "HashMap_erase k m = Some ?m'"
    using bucket_index_rel[OF rel, of k] bucket_at_rel[OF rel il] s' i
    by (simp add: HashMap_erase_def)
  show ?thesis using res rel' b' gone vs by auto
qed

lemma rel_other_bucket:
  assumes rel: "HashMap_rel m ass" and "i < BUCKET_COUNT m" "j < BUCKET_COUNT m" "j \<noteq> i"
    and "a \<in> set (ass ! i)" "x \<in> set (ass ! j)"
  shows "x \<noteq> a"
  using relD(8)[OF rel assms(2,3)] assms(4-6) by (auto simp: cellset_def)

lemma filter_entries_update:
  assumes rel: "HashMap_rel m ass"
  shows "map (filter (\<lambda>p. fst p \<noteq> k)) (HashMap_entries m ass) =
         (HashMap_entries m ass)[m_hasher m k mod BUCKET_COUNT m :=
            filter (\<lambda>p. fst p \<noteq> k) (HashMap_entries m ass ! (m_hasher m k mod BUCKET_COUNT m))]"
proof (rule nth_equalityI)
  note r = relD[OF rel]
  show "length (map (filter (\<lambda>p. fst p \<noteq> k)) (HashMap_entries m ass)) =
        length ((HashMap_entries m ass)[m_hasher m k mod BUCKET_COUNT m :=
            filter (\<lambda>p. fst p \<noteq> k) (HashMap_entries m ass ! (m_hasher m k mod BUCKET_COUNT m))])"
    by simp
  fix j assume "j < length (map (filter (\<lambda>p. fst p \<noteq> k)) (HashMap_entries m ass))"
  then have j: "j < BUCKET_COUNT m" using r(3) by (simp add: HashMap_entries_def)
  show "map (filter (\<lambda>p. fst p \<noteq> k)) (HashMap_entries m ass) ! j =
        (HashMap_entries m ass)[m_hasher m k mod BUCKET_COUNT m :=
            filter (\<lambda>p. fst p \<noteq> k) (HashMap_entries m ass ! (m_hasher m k mod BUCKET_COUNT m))] ! j"
  proof (cases "j = m_hasher m k mod BUCKET_COUNT m")
    case True
    then show ?thesis using j r(3) by (simp add: HashMap_entries_def)
  next
    case False
    have "\<forall>p\<in>set (HashMap_entries m ass ! j). fst p \<noteq> k"
    proof
      fix p assume "p \<in> set (HashMap_entries m ass ! j)"
      then obtain a where a: "a \<in> set (ass ! j)" "p = entry (mem m) a"
        using j r(3) by (auto simp: HashMap_entries_def)
      from r(6)[OF j a(1)] False show "fst p \<noteq> k" using a(2) by (auto simp: key_at_def)
    qed
    then have "filter (\<lambda>p. fst p \<noteq> k) (HashMap_entries m ass ! j) = HashMap_entries m ass ! j"
      by (simp add: filter_id_conv)
    then show ?thesis using False j r(3) by (simp add: HashMap_entries_def)
  qed
qed

lemma HashMap_erase_present:
  assumes rel: "HashMap_rel m ass"
    and present: "k \<in> fst ` set (concat (HashMap_entries m ass))"
  shows "\<exists>m' ass'. HashMap_erase k m = Some m' \<and> HashMap_rel m' ass' \<and>
           HashMap_entries m' ass' = map (filter (\<lambda>p. fst p \<noteq> k)) (HashMap_entries m ass) \<and>
           length (concat ass') + 1 = length (concat ass) \<and>
           BUCKET_COUNT m' = BUCKET_COUNT m \<and> m_hasher m' = m_hasher m"
proof -
  let ?i = "m_hasher m k mod BUCKET_COUNT m"
  note r = relD[OF rel]
  have il: "?i < BUCKET_COUNT m" by (rule hash_lt[OF rel])
  from present key_in_entries[OF rel, of k]
  obtain a where a: "a \<in> set (ass ! ?i)" "key_at (mem m) a = k" by blast
  let ?ass' = "ass[?i := remove1 a (ass ! ?i)]"
  from HashMap_erase_node[OF rel refl a]
  obtain m' where res: "HashMap_erase k m = Some m'" and rel': "HashMap_rel m' ?ass'"
    and same: "BUCKET_COUNT m' = BUCKET_COUNT m" "m_hasher m' = m_hasher m"
    and vs: "\<forall>x. x \<noteq> a \<longrightarrow>
              map_option m_value (cells (mem m') x) = map_option m_value (cells (mem m) x)"
    by blast
  have ex: "entry (mem m') x = entry (mem m) x" if "x \<noteq> a" for x
    using vs that by (intro entry_eq) simp
  have dis: "distinct (ass ! ?i)" using r(5)[OF il] by (simp add: distinct_map)
  have old: "map (entry (mem m')) (ass ! j) = map (entry (mem m)) (ass ! j)"
    if j: "j < length ass" "j \<noteq> ?i" for j
  proof (rule map_cong[OF refl])
    fix x assume "x \<in> set (ass ! j)"
    from rel_other_bucket[OF rel il _ j(2) a(1) this] j(1) r(3) have "x \<noteq> a" by simp
    then show "entry (mem m') x = entry (mem m) x" by (rule ex)
  qed
  have "map (entry (mem m')) (remove1 a (ass ! ?i)) = map (entry (mem m)) (remove1 a (ass ! ?i))"
    by (rule map_cong[OF refl]) (use ex dis in auto)
  also have "\<dots> = map (entry (mem m)) (filter (\<lambda>x. key_at (mem m) x \<noteq> key_at (mem m) a) (ass ! ?i))"
    by (rule map_remove1_filter[OF r(5)[OF il] a(1)])
  also have "\<dots> = filter (\<lambda>p. fst p \<noteq> k) (map (entry (mem m)) (ass ! ?i))"
    using a(2) by (simp add: filter_map comp_def key_at_def)
  finally have new: "map (entry (mem m')) (remove1 a (ass ! ?i)) =
      filter (\<lambda>p. fst p \<noteq> k) (HashMap_entries m ass ! ?i)"
    using il r(3) by (simp add: HashMap_entries_def)
  have "HashMap_entries m' ?ass' =
          (HashMap_entries m ass)[?i := map (entry (mem m')) (remove1 a (ass ! ?i))]"
    unfolding HashMap_entries_def using il r(3) old by (intro entries_update) auto
  then have en: "HashMap_entries m' ?ass' = map (filter (\<lambda>p. fst p \<noteq> k)) (HashMap_entries m ass)"
    by (simp only: new filter_entries_update[OF rel, symmetric])
  have "length (remove1 a (ass ! ?i)) + 1 = length (ass ! ?i)"
    using a(1) length_pos_if_in_set[OF a(1)] by (simp add: length_remove1)
  then have sz: "length (concat ?ass') + 1 = length (concat ass)"
    using il r(3) concat_nth[of ?i ass] by (simp add: concat_update)
  from res rel' en sz same show ?thesis by blast
qed

text \<open>
  Claim C2. In a well-formed map, \<open>erase(k)\<close> on an absent key returns with the state as it
  was; on a present key it removes the entry of \<open>k\<close> and no other, \<open>size()\<close> drops by 1, and a
  \<open>find(k)\<close> that follows compares equal to \<open>end()\<close>.
\<close>

theorem erase_spec:
  assumes rel: "HashMap_rel m ass"
  shows "(k \<notin> fst ` set (concat (HashMap_entries m ass)) \<longrightarrow> HashMap_erase k m = Some m) \<and>
         (k \<in> fst ` set (concat (HashMap_entries m ass)) \<longrightarrow>
          (\<exists>m' ass' n f it. HashMap_erase k m = Some m' \<and> HashMap_rel m' ass' \<and>
             concat (HashMap_entries m' ass') =
               filter (\<lambda>p. fst p \<noteq> k) (concat (HashMap_entries m ass)) \<and>
             HashMap_size m = Some (n + 1) \<and> HashMap_size m' = Some n \<and>
             HashMap_find oob k m' = Some (f, it) \<and>
             IteratorHelper_eq m' it (snd (HashMap_end oob' m'))))"
proof (intro conjI impI)
  assume "k \<notin> fst ` set (concat (HashMap_entries m ass))"
  then show "HashMap_erase k m = Some m" by (rule HashMap_erase_absent[OF rel])
next
  assume "k \<in> fst ` set (concat (HashMap_entries m ass))"
  from HashMap_erase_present[OF rel this]
  obtain m' ass' where res: "HashMap_erase k m = Some m'" and rel': "HashMap_rel m' ass'"
    and en: "HashMap_entries m' ass' = map (filter (\<lambda>p. fst p \<noteq> k)) (HashMap_entries m ass)"
    and sz: "length (concat ass') + 1 = length (concat ass)"
    by blast
  have c: "concat (HashMap_entries m' ass') = filter (\<lambda>p. fst p \<noteq> k) (concat (HashMap_entries m ass))"
    by (simp add: en filter_concat)
  then have "k \<notin> fst ` set (concat (HashMap_entries m' ass'))" by auto
  then have ab: "\<forall>a\<in>set (ass' ! (m_hasher m' k mod BUCKET_COUNT m')). key_at (mem m') a \<noteq> k"
    using key_in_entries[OF rel', of k] by blast
  note f = HashMap_find_miss[OF rel' refl ab, of oob]
  have e: "snd (HashMap_end oob' m') = \<lparr>m_index = BUCKET_COUNT m', m_ref = \<lparr>m_node = None\<rparr>\<rparr>"
    using relD(2)[OF rel'] by (simp add: HashMap_end_eq)
  have eq: "IteratorHelper_eq m' \<lparr>m_index = BUCKET_COUNT m',
      m_ref = \<lparr>m_node = m_end (m_buckets m' ! (m_hasher m' k mod BUCKET_COUNT m'))\<rparr>\<rparr>
      (snd (HashMap_end oob' m'))"
    by (simp add: e IteratorHelper_eq_def)
  have s1: "HashMap_size m = Some (length (concat ass') + 1)"
    using HashMap_size_rel[OF rel] sz by simp
  show "\<exists>m' ass' n f it. HashMap_erase k m = Some m' \<and> HashMap_rel m' ass' \<and>
             concat (HashMap_entries m' ass') =
               filter (\<lambda>p. fst p \<noteq> k) (concat (HashMap_entries m ass)) \<and>
             HashMap_size m = Some (n + 1) \<and> HashMap_size m' = Some n \<and>
             HashMap_find oob k m' = Some (f, it) \<and>
             IteratorHelper_eq m' it (snd (HashMap_end oob' m'))"
    using res rel' c s1 HashMap_size_rel[OF rel'] f eq by blast
qed

lemma rel_key_unique:
  assumes rel: "HashMap_rel m ass" and "j < BUCKET_COUNT m" "x \<in> set (ass ! j)"
    and a: "a \<in> set (ass ! (m_hasher m k mod BUCKET_COUNT m))" "key_at (mem m) a = k"
  shows "key_at (mem m) x = k \<longleftrightarrow> x = a"
proof
  note r = relD[OF rel]
  assume kx: "key_at (mem m) x = k"
  from r(6)[OF assms(2,3)] kx have j: "j = m_hasher m k mod BUCKET_COUNT m" by simp
  from r(5)[OF assms(2)] assms(3) a j kx show "x = a"
    by (auto simp: distinct_map inj_on_def)
next
  assume "x = a" with a show "key_at (mem m) x = k" by simp
qed

lemma HashMap_rel_store:
  assumes rel: "HashMap_rel m ass" and i: "i < BUCKET_COUNT m" and a: "a \<in> set (ass ! i)"
    and n: "cells (mem m) a = Some n" and k: "fst v = fst (m_value n)"
  shows "HashMap_rel (m\<lparr>mem := (mem m)\<lparr>cells := (cells (mem m))(a \<mapsto> n\<lparr>m_value := v\<rparr>)\<rparr>\<rparr>) ass"
proof -
  note r = relD[OF rel]
  let ?s' = "(mem m)\<lparr>cells := (cells (mem m))(a \<mapsto> n\<lparr>m_value := v\<rparr>)\<rparr>"
  have kx: "key_at ?s' x = key_at (mem m) x" for x
    using n k by (simp add: key_at_def entry_def)
  have wf: "Bucket_wf ?s' (m_buckets m ! i) (ass ! i)"
    using r(4)[OF i] by (simp add: Bucket_wf_store[OF n])
  have k1: "distinct (map (key_at ?s') (ass ! i))"
    using r(5)[OF i] kx by (simp cong: map_cong)
  have k2: "\<forall>x\<in>set (ass ! i). m_hasher m (key_at ?s' x) mod BUCKET_COUNT m = i"
    using r(6)[OF i] kx by simp
  have "HashMap_rel (set_bucket i (m_buckets m ! i) ?s' m) (ass[i := ass ! i])"
  proof (rule HashMap_rel_update[OF rel i wf _ _ _ k1 k2])
    show "m_end (m_buckets m ! i) = m_end (m_buckets m ! i)" ..
    show "brk (mem m) \<le> brk ?s'" by simp
    show "\<forall>x\<in>set (ass ! i). x < brk ?s' \<and> (x \<in> set (ass ! i) \<or> brk (mem m) \<le> x)"
      using rel_lt_brk[OF rel i] by simp
    show "\<forall>x. x < brk (mem m) \<and> x \<notin> cellset (m_buckets m ! i) (ass ! i) \<longrightarrow>
            cells ?s' x = cells (mem m) x"
      using a by (auto simp: cellset_def)
  qed
  moreover have "set_bucket i (m_buckets m ! i) ?s' m = m\<lparr>mem := ?s'\<rparr>"
    using i r(2) by (simp add: set_bucket_def)
  ultimately show ?thesis by simp
qed

lemma HashMap_entries_store:
  assumes rel: "HashMap_rel m ass" and a: "a \<in> set (ass ! (m_hasher m k mod BUCKET_COUNT m))"
    and n: "cells (mem m) a = Some n" and k: "fst (m_value n) = k"
  shows "HashMap_entries (m\<lparr>mem := (mem m)\<lparr>cells := (cells (mem m))(a \<mapsto> n\<lparr>m_value := (k, v)\<rparr>)\<rparr>\<rparr>) ass =
           map (map (\<lambda>p. if fst p = k then (k, v) else p)) (HashMap_entries m ass)"
proof -
  note r = relD[OF rel]
  let ?s' = "(mem m)\<lparr>cells := (cells (mem m))(a \<mapsto> n\<lparr>m_value := (k, v)\<rparr>)\<rparr>"
  have ka: "key_at (mem m) a = k" using n k by (simp add: key_at_def entry_def)
  have "map (entry ?s') as = map ((\<lambda>p. if fst p = k then (k, v) else p) \<circ> entry (mem m)) as"
    if "as \<in> set ass" for as
  proof (rule map_cong[OF refl])
    fix x assume x: "x \<in> set as"
    from that obtain j where j: "j < BUCKET_COUNT m" "as = ass ! j"
      using r(3) by (auto simp: in_set_conv_nth)
    from rel_key_unique[OF rel j(1) _ a ka, of x] x j
    have u: "fst (entry (mem m) x) = k \<longleftrightarrow> x = a" by (simp add: key_at_def)
    show "entry ?s' x = ((\<lambda>p. if fst p = k then (k, v) else p) \<circ> entry (mem m)) x"
      using u by (auto simp: entry_def)
  qed
  then show ?thesis by (simp add: HashMap_entries_def cong: map_cong)
qed

lemma HashMap_insert_or_assign_old:
  assumes rel: "HashMap_rel m ass"
    and present: "(k, v1) \<in> set (concat (HashMap_entries m ass))"
  shows "\<exists>a n. a \<in> set (ass ! (m_hasher m k mod BUCKET_COUNT m)) \<and>
           cells (mem m) a = Some n \<and> m_value n = (k, v1) \<and>
           HashMap_insert_or_assign oob (k, v) m =
             Some (m\<lparr>mem := (mem m)\<lparr>cells := (cells (mem m))(a \<mapsto> n\<lparr>m_value := (k, v)\<rparr>)\<rparr>\<rparr>,
                   (None, \<lparr>m_index = m_hasher m k mod BUCKET_COUNT m,
                            m_ref = \<lparr>m_node = Some a\<rparr>\<rparr>))"
proof -
  let ?i = "m_hasher m k mod BUCKET_COUNT m"
  note r = relD[OF rel]
  have il: "?i < BUCKET_COUNT m" by (rule hash_lt[OF rel])
  from present pair_in_entries[OF rel, of k v1]
  obtain a where a: "a \<in> set (ass ! ?i)" "entry (mem m) a = (k, v1)" by blast
  from rel_alloc[OF rel il a(1)] a(2)
  obtain n where n: "cells (mem m) a = Some n" "m_value n = (k, v1)" by auto
  have d: "distinct (map (\<lambda>a. fst (entry (mem m) a)) (ass ! ?i))"
    using r(5)[OF il] by (simp add: key_at_def[abs_def])
  have ka: "fst (entry (mem m) a) = k" using a(2) by simp
  let ?s' = "(mem m)\<lparr>cells := (cells (mem m))(a \<mapsto> n\<lparr>m_value := (k, v)\<rparr>)\<rparr>"
  from Bucket_insert_or_assign_present[OF r(4)[OF il] a(1) ka d, of v] n(1)
  have bi: "Bucket_insert_or_assign (k, v) (mem m) (m_buckets m ! ?i) =
              Some (?s', m_buckets m ! ?i, Some a)"
    by auto
  from Bucket_wf_end[OF r(4)[OF il]] a(1) obtain e where e: "m_end (m_buckets m ! ?i) = Some e" "e \<noteq> a"
    by auto
  have sb: "set_bucket ?i (m_buckets m ! ?i) ?s' m = m\<lparr>mem := ?s'\<rparr>"
    using il r(2) by (simp add: set_bucket_def)
  have it: "IteratorHelper_new oob (m\<lparr>mem := ?s'\<rparr>) ?i (Some a) =
              (None, \<lparr>m_index = ?i, m_ref = \<lparr>m_node = Some a\<rparr>\<rparr>)"
    using il r(2) e by (intro IteratorHelper_new_node) auto
  have "HashMap_insert_or_assign oob (k, v) m =
          Some (set_bucket ?i (m_buckets m ! ?i) ?s' m,
                IteratorHelper_new oob (set_bucket ?i (m_buckets m ! ?i) ?s' m) ?i (Some a))"
    using bucket_index_rel[OF rel, of k] bucket_at_rel[OF rel il] bi
    by (simp add: HashMap_insert_or_assign_def Let_def)
  then have "HashMap_insert_or_assign oob (k, v) m =
          Some (m\<lparr>mem := ?s'\<rparr>, (None, \<lparr>m_index = ?i, m_ref = \<lparr>m_node = Some a\<rparr>\<rparr>))"
    by (simp only: sb it)
  with a(1) n show ?thesis by blast
qed

lemma HashMap_insert_or_assign_new:
  assumes rel: "HashMap_rel m ass"
    and absent: "k \<notin> fst ` set (concat (HashMap_entries m ass))"
    and ins: "HashMap_insert oob (k, v) m = Some (m', it, True)"
  shows "HashMap_insert_or_assign oob (k, v) m = Some (m', it)"
proof -
  let ?i = "m_hasher m k mod BUCKET_COUNT m"
  note r = relD[OF rel]
  have il: "?i < BUCKET_COUNT m" by (rule hash_lt[OF rel])
  from Bucket_wf_end[OF r(4)[OF il]] obtain e where e: "m_end (m_buckets m ! ?i) = Some e" by auto
  have lt: "e < brk (mem m)" "\<forall>a\<in>set (ass ! ?i). a < brk (mem m)"
    using r(7)[OF il] e by (auto simp: cellset_def)
  then have fresh: "brk (mem m) \<noteq> e" "brk (mem m) \<notin> set (ass ! ?i)" by auto
  have ab: "\<forall>a\<in>set (ass ! ?i). fst (entry (mem m) a) \<noteq> k"
    using absent key_in_entries[OF rel, of k] by (auto simp: key_at_def)
  from Bucket_insert_or_assign_absent[OF r(4)[OF il] e fresh ab, of v]
  obtain s' where 1: "Bucket_insert_or_assign (k, v) (mem m) (m_buckets m ! ?i) =
        Some (s', (m_buckets m ! ?i)\<lparr>m_size := m_size (m_buckets m ! ?i) + 1\<rparr>, Some (brk (mem m)))"
    and 2: "Bucket_insert (k, v) (mem m) (m_buckets m ! ?i) =
        Some (s', (m_buckets m ! ?i)\<lparr>m_size := m_size (m_buckets m ! ?i) + 1\<rparr>, Some (brk (mem m)), True)"
    by blast
  show ?thesis
    using ins bucket_index_rel[OF rel, of k] bucket_at_rel[OF rel il] 1 2
    by (auto simp: HashMap_insert_or_assign_def HashMap_insert_def Let_def)
qed




lemma example_absent: "7 \<notin> fst ` set (concat (HashMap_entries example_map example_chains))"
  "3 \<notin> fst ` set (concat (HashMap_entries example_map example_chains))"
  by (simp_all add: example_entries)

lemma example_present: "(4, CHR ''D'') \<in> set (concat (HashMap_entries example_map example_chains))"
  "4 \<in> fst ` set (concat (HashMap_entries example_map example_chains))"
  by (simp_all add: example_entries)

theorem erase_spec_witness:
  "HashMap_erase 7 example_map = Some example_map \<and>
   (\<exists>m' f it. HashMap_erase 4 example_map = Some m' \<and>
      HashMap_size example_map = Some 3 \<and> HashMap_size m' = Some 2 \<and>
      HashMap_find None 4 m' = Some (f, it) \<and>
      IteratorHelper_eq m' it (snd (HashMap_end None m')))"
proof -
  from erase_spec[OF example_rel, of 7 None None] example_absent(1)
  have A: "HashMap_erase 7 example_map = Some example_map" by blast
  from erase_spec[OF example_rel, of 4 None None] example_present(2)
  obtain m' n f it where 1: "HashMap_erase 4 example_map = Some m'"
    "HashMap_size example_map = Some (n + 1)" "HashMap_size m' = Some n"
    "HashMap_find None 4 m' = Some (f, it)" "IteratorHelper_eq m' it (snd (HashMap_end None m'))"
    by blast
  from 1(2) example_size have "n = 2" by simp
  with 1 example_size A show ?thesis by blast
qed



lemma next_nonempty_end: "length xss \<le> i \<Longrightarrow> next_nonempty xss i = i"
  by (simp add: next_nonempty_def)

lemma next_nonempty_here:
  "i < length xss \<Longrightarrow> xss ! i \<noteq> [] \<Longrightarrow> next_nonempty xss i = i"
  by (simp add: next_nonempty_def Cons_nth_drop_Suc[symmetric])

lemma next_nonempty_skip:
  "i < length xss \<Longrightarrow> xss ! i = [] \<Longrightarrow> next_nonempty xss i = next_nonempty xss (Suc i)"
  by (simp add: next_nonempty_def Cons_nth_drop_Suc[symmetric])

lemma next_nonempty_le: "i \<le> length xss \<Longrightarrow> next_nonempty xss i \<le> length xss"
proof -
  assume i: "i \<le> length xss"
  have "length (takeWhile (\<lambda>xs. xs = []) (drop i xss)) \<le> length (drop i xss)"
    by (rule length_takeWhile_le)
  with i show ?thesis by (simp add: next_nonempty_def)
qed

lemma next_nonempty_ge: "i \<le> next_nonempty xss i"
  by (simp add: next_nonempty_def)

lemma next_nonempty_nth:
  assumes "next_nonempty xss i < length xss"
  shows "xss ! next_nonempty xss i \<noteq> []"
proof -
  let ?n = "length (takeWhile (\<lambda>xs. xs = []) (drop i xss))"
  have lt: "?n < length (drop i xss)" using assms by (simp add: next_nonempty_def)
  from nth_length_takeWhile[OF lt] have "drop i xss ! ?n \<noteq> []" by simp
  moreover have "drop i xss ! ?n = xss ! (i + ?n)" using lt by simp
  ultimately show ?thesis by (simp add: next_nonempty_def)
qed

lemma next_nonempty_concat:
  "i \<le> length xss \<Longrightarrow> concat (drop (next_nonempty xss i) xss) = concat (drop i xss)"
proof -
  let ?P = "\<lambda>xs::'a list. xs = []"
  have "concat (drop i xss) = concat (takeWhile ?P (drop i xss) @ dropWhile ?P (drop i xss))"
    by simp
  also have "\<dots> = concat (dropWhile ?P (drop i xss))"
    by (simp del: takeWhile_dropWhile_id) (auto dest: set_takeWhileD)
  also have "dropWhile ?P (drop i xss) = drop (length (takeWhile ?P (drop i xss))) (drop i xss)"
    by (rule dropWhile_eq_drop)
  finally show ?thesis by (simp add: next_nonempty_def add.commute)
qed

lemma empty_from_rel:
  "HashMap_rel m ass \<Longrightarrow> i \<le> BUCKET_COUNT m \<Longrightarrow>
     empty_from i m = Some (concat (drop i ass) = [])"
proof (induction i m rule: empty_from.induct)
  case (1 i m)
  note rel = "1.prems"(1)
  note r = relD[OF rel]
  show ?case
  proof (cases "i < BUCKET_COUNT m")
    case True
    have d: "drop i ass = ass ! i # drop (Suc i) ass"
      using True r(3) by (simp add: Cons_nth_drop_Suc)
    note e = Bucket_empty_wf[OF r(4)[OF True]]
    show ?thesis
    proof (cases "ass ! i = []")
      case empty: True
      have "empty_from (Suc i) m = Some (concat (drop (Suc i) ass) = [])"
        using True bucket_at_rel[OF rel True] e empty rel by (intro "1.IH") auto
      then show ?thesis
        using True bucket_at_rel[OF rel True] e empty d
        by (subst empty_from.simps) simp
    next
      case False
      then show ?thesis
        using True bucket_at_rel[OF rel True] e d
        by (subst empty_from.simps) simp
    qed
  next
    case False
    with "1.prems" r(3) show ?thesis by (subst empty_from.simps) simp
  qed
qed

lemma HashMap_empty_rel:
  "HashMap_rel m ass \<Longrightarrow> HashMap_empty m = Some (concat ass = [])"
  by (simp add: HashMap_empty_def empty_from_rel)

lemma first_nonempty_rel:
  "HashMap_rel m ass \<Longrightarrow> i \<le> BUCKET_COUNT m \<Longrightarrow>
     first_nonempty i m = Some (next_nonempty ass i)"
proof (induction i m rule: first_nonempty.induct)
  case (1 i m)
  note rel = "1.prems"(1)
  note r = relD[OF rel]
  show ?case
  proof (cases "i < BUCKET_COUNT m")
    case True
    note e = Bucket_empty_wf[OF r(4)[OF True]]
    show ?thesis
    proof (cases "ass ! i = []")
      case empty: True
      have "first_nonempty (Suc i) m = Some (next_nonempty ass (Suc i))"
        using True bucket_at_rel[OF rel True] e empty rel by (intro "1.IH") auto
      then show ?thesis
        using True bucket_at_rel[OF rel True] e empty r(3)
        by (subst first_nonempty.simps) (simp add: next_nonempty_skip)
    next
      case False
      then show ?thesis
        using True bucket_at_rel[OF rel True] e r(3)
        by (subst first_nonempty.simps) (simp add: next_nonempty_here)
    qed
  next
    case False
    with "1.prems" r(3) show ?thesis
      by (subst first_nonempty.simps) (simp add: next_nonempty_end)
  qed
qed

lemma skip_empty_rel:
  "HashMap_rel m ass \<Longrightarrow> i \<le> BUCKET_COUNT m \<Longrightarrow>
     skip_empty m i = Some (next_nonempty ass i)"
proof (induction m i rule: skip_empty.induct)
  case (1 m i)
  note rel = "1.prems"(1)
  note r = relD[OF rel]
  show ?case
  proof (cases "i < BUCKET_COUNT m")
    case True
    note e = Bucket_empty_wf[OF r(4)[OF True]]
    show ?thesis
    proof (cases "ass ! i = []")
      case empty: True
      have "skip_empty m (Suc i) = Some (next_nonempty ass (Suc i))"
        using True bucket_at_rel[OF rel True] e empty rel by (intro "1.IH") auto
      then show ?thesis
        using True bucket_at_rel[OF rel True] e empty r(3)
        by (subst skip_empty.simps) (simp add: next_nonempty_skip)
    next
      case False
      then show ?thesis
        using True bucket_at_rel[OF rel True] e r(3)
        by (subst skip_empty.simps) (simp add: next_nonempty_here)
    qed
  next
    case False
    with "1.prems" r(3) show ?thesis
      by (subst skip_empty.simps) (simp add: next_nonempty_end)
  qed
qed

lemma Bucket_new_eq:
  "Bucket_new s =
     Some (s\<lparr>cells := (cells s)(brk s \<mapsto> \<lparr>m_prev = Some (brk s), m_next = Some (brk s),
                                         m_value = (default, default)\<rparr>),
             brk := Suc (brk s)\<rparr>,
           \<lparr>m_size = 0, m_end = Some (brk s)\<rparr>)"
  by (simp add: Bucket_new_def new_Node_def set_next_def set_prev_def)

lemma new_buckets_spec:
  "\<exists>s' bs. new_buckets n s = Some (s', bs) \<and> length bs = n \<and> brk s' = brk s + n \<and>
     (\<forall>i<n. bs ! i = \<lparr>m_size = 0, m_end = Some (brk s + i)\<rparr> \<and>
        cells s' (brk s + i) = Some \<lparr>m_prev = Some (brk s + i), m_next = Some (brk s + i),
                                      m_value = (default, default)\<rparr>)"
proof (induction n)
  case 0
  show ?case by simp
next
  case (Suc n)
  then obtain s1 bs where 1: "new_buckets n s = Some (s1, bs)" "length bs = n" "brk s1 = brk s + n"
    and 2: "\<forall>i<n. bs ! i = \<lparr>m_size = 0, m_end = Some (brk s + i)\<rparr> \<and>
        cells s1 (brk s + i) = Some \<lparr>m_prev = Some (brk s + i), m_next = Some (brk s + i),
                                      m_value = (default, default)\<rparr>"
    by blast
  let ?nd = "\<lparr>m_prev = Some (brk s + n), m_next = Some (brk s + n),
               m_value = (default, default)\<rparr> :: ('a, 'b) Node"
  let ?s2 = "s1\<lparr>cells := (cells s1)(brk s + n \<mapsto> ?nd), brk := Suc (brk s + n)\<rparr>"
  let ?b = "\<lparr>m_size = 0, m_end = Some (brk s + n)\<rparr>"
  have res: "new_buckets (Suc n) s = Some (?s2, bs @ [?b])"
    using 1 by (simp add: Bucket_new_eq)
  have "\<forall>i<Suc n. (bs @ [?b]) ! i = \<lparr>m_size = 0, m_end = Some (brk s + i)\<rparr> \<and>
        cells ?s2 (brk s + i) = Some \<lparr>m_prev = Some (brk s + i), m_next = Some (brk s + i),
                                      m_value = (default, default)\<rparr>"
    using 1(2) 2 by (auto simp: nth_append less_Suc_eq)
  with res 1(2) show ?case by simp
qed

lemma HashMap_new_rel:
  assumes "0 < n"
  shows "\<exists>m. HashMap_new n h = Some m \<and> HashMap_rel m (replicate n []) \<and>
           BUCKET_COUNT m = n \<and> m_hasher m = h"
proof -
  from new_buckets_spec[of n "empty_memory :: ('a, 'b) memory"]
  obtain s' bs where 1: "new_buckets n (empty_memory :: ('a, 'b) memory) = Some (s', bs)"
    "length bs = n" "brk s' = n"
    and 2: "\<forall>i<n. bs ! i = \<lparr>m_size = 0, m_end = Some i\<rparr> \<and>
        cells s' i = Some \<lparr>m_prev = Some i, m_next = Some i, m_value = (default, default)\<rparr>"
    by (auto simp: empty_memory_def)
  let ?m = "\<lparr>BUCKET_COUNT = n, m_buckets = bs, m_hasher = h, mem = s'\<rparr>"
  have "HashMap_new n h = Some ?m" using 1(1) by (simp add: HashMap_new_def)
  moreover have "HashMap_rel ?m (replicate n [])"
    unfolding HashMap_rel_def using assms 1(2,3) 2
    by (auto simp: Bucket_wf_def cellset_def)
  ultimately show ?thesis by auto
qed

lemma example_empty_new:
  "\<exists>m :: (nat, char) HashMap. HashMap_new 3 (\<lambda>k. k) = Some m \<and> HashMap_rel m [[], [], []]"
  using HashMap_new_rel[of 3 "\<lambda>k::nat. k"] by (auto simp: numeral_3_eq_3)

lemma next_nonempty_BC:
  assumes "i \<le> length xss"
  shows "next_nonempty xss i = length xss \<longleftrightarrow> concat (drop i xss) = []"
proof
  assume "next_nonempty xss i = length xss"
  with next_nonempty_concat[OF assms] show "concat (drop i xss) = []" by simp
next
  assume e: "concat (drop i xss) = []"
  show "next_nonempty xss i = length xss"
  proof (rule ccontr)
    assume "next_nonempty xss i \<noteq> length xss"
    with next_nonempty_le[OF assms] have lt: "next_nonempty xss i < length xss" by simp
    from next_nonempty_nth[OF lt] have "xss ! next_nonempty xss i \<noteq> []" .
    moreover have "xss ! next_nonempty xss i \<in> set (drop i xss)"
      using lt next_nonempty_ge[of i xss] by (auto simp: in_set_conv_nth intro!: exI[of _ "next_nonempty xss i - i"])
    ultimately show False using e by auto
  qed
qed

lemma HashMap_begin_rel:
  assumes rel: "HashMap_rel m ass"
  shows "HashMap_begin oob m =
     Some (if concat ass = []
           then (Some OutOfRange, \<lparr>m_index = BUCKET_COUNT m, m_ref = \<lparr>m_node = None\<rparr>\<rparr>)
           else (None, \<lparr>m_index = next_nonempty ass 0,
                         m_ref = \<lparr>m_node = Some (hd (ass ! next_nonempty ass 0))\<rparr>\<rparr>))"
proof -
  note r = relD[OF rel]
  let ?j = "next_nonempty ass 0"
  note f = first_nonempty_rel[OF rel, of 0]
  show ?thesis
  proof (cases "concat ass = []")
    case True
    then have "?j = BUCKET_COUNT m" using next_nonempty_BC[of 0 ass] r(3) by simp
    then show ?thesis using f True HashMap_end_eq[OF r(2), of oob]
      by (simp add: HashMap_begin_def HashMap_end_def)
  next
    case False
    then have ne: "?j \<noteq> BUCKET_COUNT m" using next_nonempty_BC[of 0 ass] r(3) by simp
    with next_nonempty_le[of 0 ass] r(3) have lt: "?j < BUCKET_COUNT m" by simp
    have nn: "ass ! ?j \<noteq> []" using next_nonempty_nth[of ass 0] lt r(3) by simp
    have b: "Bucket_begin (mem m) (m_buckets m ! ?j) = Some (Some (hd (ass ! ?j)))"
      using Bucket_begin_wf[OF r(4)[OF lt]] nn by simp
    from Bucket_wf_end[OF r(4)[OF lt]] nn obtain e where
      e: "m_end (m_buckets m ! ?j) = Some e" "e \<noteq> hd (ass ! ?j)"
      by (metis hd_in_set)
    have it: "IteratorHelper_new oob m ?j (Some (hd (ass ! ?j))) =
        (None, \<lparr>m_index = ?j, m_ref = \<lparr>m_node = Some (hd (ass ! ?j))\<rparr>\<rparr>)"
      using lt r(2) e by (intro IteratorHelper_new_node) auto
    show ?thesis using f ne False bucket_at_rel[OF rel lt] b it
      by (simp add: HashMap_begin_def)
  qed
qed

text \<open>
  Claim C7. In a well-formed map, \<open>begin() == end()\<close> holds exactly when the map holds no
  element, that is, exactly when \<open>size()\<close> is 0, and exactly when \<open>empty()\<close> is true.
\<close>

theorem begin_end_empty:
  assumes rel: "HashMap_rel m ass"
  shows "\<exists>f it n e. HashMap_begin oob m = Some (f, it) \<and> HashMap_size m = Some n \<and>
           HashMap_empty m = Some e \<and>
           (IteratorHelper_eq m it (snd (HashMap_end oob' m)) \<longleftrightarrow> concat (HashMap_entries m ass) = []) \<and>
           (IteratorHelper_eq m it (snd (HashMap_end oob' m)) \<longleftrightarrow> n = 0) \<and>
           (IteratorHelper_eq m it (snd (HashMap_end oob' m)) \<longleftrightarrow> e)"
proof -
  note r = relD[OF rel]
  let ?j = "next_nonempty ass 0"
  have en: "concat (HashMap_entries m ass) = [] \<longleftrightarrow> concat ass = []"
    by (auto simp: HashMap_entries_def)
  have e: "snd (HashMap_end oob' m) = \<lparr>m_index = BUCKET_COUNT m, m_ref = \<lparr>m_node = None\<rparr>\<rparr>"
    using r(2) by (simp add: HashMap_end_eq)
  show ?thesis
  proof (cases "concat ass = []")
    case True
    then have b: "HashMap_begin oob m =
        Some (Some OutOfRange, \<lparr>m_index = BUCKET_COUNT m, m_ref = \<lparr>m_node = None\<rparr>\<rparr>)"
      using HashMap_begin_rel[OF rel, of oob] by simp
    have q: "IteratorHelper_eq m \<lparr>m_index = BUCKET_COUNT m, m_ref = \<lparr>m_node = None\<rparr>\<rparr>
        (snd (HashMap_end oob' m))"
      by (simp add: e IteratorHelper_eq_def)
    have sz: "HashMap_size m = Some 0" using HashMap_size_rel[OF rel] True by simp
    have em: "HashMap_empty m = Some True" using HashMap_empty_rel[OF rel] True by simp
    from b sz em q en True show ?thesis by simp
  next
    case False
    then have ne: "?j \<noteq> BUCKET_COUNT m" using next_nonempty_BC[of 0 ass] r(3) by simp
    have b: "HashMap_begin oob m =
        Some (None, \<lparr>m_index = ?j, m_ref = \<lparr>m_node = Some (hd (ass ! ?j))\<rparr>\<rparr>)"
      using HashMap_begin_rel[OF rel, of oob] False by simp
    have q: "\<not> IteratorHelper_eq m \<lparr>m_index = ?j, m_ref = \<lparr>m_node = Some (hd (ass ! ?j))\<rparr>\<rparr>
            (snd (HashMap_end oob' m))"
      using ne by (simp add: e IteratorHelper_eq_def)
    have sz: "HashMap_size m = Some (length (concat ass))" by (rule HashMap_size_rel[OF rel])
    have em: "HashMap_empty m = Some False" using HashMap_empty_rel[OF rel] False by simp
    from b sz em q en False show ?thesis by simp
  qed
qed

text \<open>
  Claim C9. For a node holding the pair \<open>(k, v1)\<close>: \<open>get()\<close> and \<open>get_pair()\<close> return \<open>v1\<close>
  and \<open>(k, v1)\<close> and are reads of the state; \<open>set(v2)\<close> is one store that replaces the pair of
  that node by \<open>(k, v2)\<close> and changes nothing else (so it is \<open>set_pair((k, v2))\<close>), after which
  \<open>get_pair()\<close> is \<open>(k, v2)\<close>; \<open>set_pair(p)\<close> replaces the stored pair by \<open>p\<close>.
\<close>

theorem Reference_spec:
  assumes "cells s a = Some nd" and "m_value nd = (k, v1)"
  shows "Reference_get \<lparr>m_node = Some a\<rparr> s = Some v1 \<and>
         Reference_get_pair \<lparr>m_node = Some a\<rparr> s = Some (k, v1) \<and>
         Reference_set \<lparr>m_node = Some a\<rparr> v2 s =
           Some (s\<lparr>cells := (cells s)(a \<mapsto> nd\<lparr>m_value := (k, v2)\<rparr>)\<rparr>) \<and>
         Reference_set \<lparr>m_node = Some a\<rparr> v2 s = Reference_set_pair \<lparr>m_node = Some a\<rparr> (k, v2) s \<and>
         Reference_set_pair \<lparr>m_node = Some a\<rparr> p s =
           Some (s\<lparr>cells := (cells s)(a \<mapsto> nd\<lparr>m_value := p\<rparr>)\<rparr>) \<and>
         Reference_get_pair \<lparr>m_node = Some a\<rparr> (s\<lparr>cells := (cells s)(a \<mapsto> nd\<lparr>m_value := (k, v2)\<rparr>)\<rparr>)
           = Some (k, v2) \<and>
         Reference_get \<lparr>m_node = Some a\<rparr> (s\<lparr>cells := (cells s)(a \<mapsto> nd\<lparr>m_value := (k, v2)\<rparr>)\<rparr>)
           = Some v2 \<and>
         Reference_get_pair \<lparr>m_node = Some a\<rparr> (s\<lparr>cells := (cells s)(a \<mapsto> nd\<lparr>m_value := p\<rparr>)\<rparr>)
           = Some p"
  using assms
  by (simp add: Reference_get_def Reference_get_pair_def Reference_set_def Reference_set_pair_def
      deref_def store_value_def)

theorem Reference_spec_witness:
  "Reference_get \<lparr>m_node = Some 5\<rparr> (mem example_map) = Some CHR ''D'' \<and>
   Reference_get_pair \<lparr>m_node = Some 5\<rparr> (mem example_map) = Some (4, CHR ''D'') \<and>
   (\<exists>s'. Reference_set \<lparr>m_node = Some 5\<rparr> CHR ''Z'' (mem example_map) = Some s' \<and>
      Reference_get_pair \<lparr>m_node = Some 5\<rparr> s' = Some (4, CHR ''Z'') \<and>
      map (cells s') [0, 1, 2, 3, 4] = map (cells (mem example_map)) [0, 1, 2, 3, 4] \<and>
      map_option m_next (cells s' 5) = Some (Some 1) \<and> map_option m_prev (cells s' 5) = Some (Some 3)) \<and>
   (\<exists>s'. Reference_set_pair \<lparr>m_node = Some 5\<rparr> (4, CHR ''Y'') (mem example_map) = Some s' \<and>
      Reference_get_pair \<lparr>m_node = Some 5\<rparr> s' = Some (4, CHR ''Y''))"
proof -
  have c: "cells (mem example_map) 5 = Some \<lparr>m_prev = Some 3, m_next = Some 1, m_value = (4, CHR ''D'')\<rparr>"
    by (simp add: example_map_def example_cells_def)
  have v: "m_value \<lparr>m_prev = Some 3, m_next = Some 1, m_value = (4::nat, CHR ''D'')\<rparr> = (4, CHR ''D'')"
    by simp
  from Reference_spec[OF c v, of "CHR ''Z''" "(4, CHR ''Y'')"]
  show ?thesis by (simp add: example_map_def example_cells_def)
qed

theorem begin_end_empty_witness:
  "(\<exists>f it. HashMap_begin None example_map = Some (f, it) \<and>
      \<not> IteratorHelper_eq example_map it (snd (HashMap_end None example_map)) \<and>
      HashMap_size example_map = Some 3 \<and> HashMap_empty example_map = Some False) \<and>
   (\<exists>m f it. HashMap_new 3 (\<lambda>k::nat. k) = Some (m :: (nat, char) HashMap) \<and>
      HashMap_begin None m = Some (f, it) \<and>
      IteratorHelper_eq m it (snd (HashMap_end None m)) \<and>
      HashMap_size m = Some 0 \<and> HashMap_empty m = Some True)"
proof -
  from begin_end_empty[OF example_rel, of None None] example_size
  have A: "\<exists>f it. HashMap_begin None example_map = Some (f, it) \<and>
      \<not> IteratorHelper_eq example_map it (snd (HashMap_end None example_map)) \<and>
      HashMap_size example_map = Some 3 \<and> HashMap_empty example_map = Some False"
    by auto
  from example_empty_new obtain m :: "(nat, char) HashMap" where
    m: "HashMap_new 3 (\<lambda>k::nat. k) = Some m" "HashMap_rel m [[], [], []]"
    by blast
  from begin_end_empty[OF m(2), of None None]
  have "\<exists>f it. HashMap_begin None m = Some (f, it) \<and>
      IteratorHelper_eq m it (snd (HashMap_end None m)) \<and>
      HashMap_size m = Some 0 \<and> HashMap_empty m = Some True"
    by (auto simp: HashMap_entries_def)
  with m(1) A show ?thesis by blast
qed

text \<open>
  Claim C10. The claim says that no construction of a cursor reads the bucket array at an
  index that is not below \<open>BUCKET_COUNT\<close>. The code does: \<open>end()\<close>, and \<open>begin()\<close> on a map
  without elements, call the constructor with the index \<open>BUCKET_COUNT\<close>, and the constructor
  reads \<open>m_buckets[m_index].end()\<close> before it looks at the index. \<open>find()\<close>, on a hit and on a
  miss, and \<open>begin()\<close> on a map with elements stay inside the array.
\<close>

theorem end_reads_out_of_range:
  assumes rel: "HashMap_rel m ass"
  shows "bucket_at m (BUCKET_COUNT m) = None \<and>
         HashMap_end oob m = IteratorHelper_new oob m (BUCKET_COUNT m) None \<and>
         fst (HashMap_end oob m) = Some OutOfRange \<and>
         (concat ass = [] \<longrightarrow> map_option fst (HashMap_begin oob m) = Some (Some OutOfRange)) \<and>
         (concat ass \<noteq> [] \<longrightarrow> map_option fst (HashMap_begin oob m) = Some None) \<and>
         map_option fst (HashMap_find oob k m) = Some None"
proof -
  note r = relD[OF rel]
  have f: "map_option fst (HashMap_find oob k m) = Some None"
  proof (cases "\<exists>a\<in>set (ass ! (m_hasher m k mod BUCKET_COUNT m)). key_at (mem m) a = k")
    case True
    then obtain a where "a \<in> set (ass ! (m_hasher m k mod BUCKET_COUNT m))" "key_at (mem m) a = k"
      by blast
    from HashMap_find_hit[OF rel refl this, of oob] show ?thesis by simp
  next
    case False
    then have "\<forall>a\<in>set (ass ! (m_hasher m k mod BUCKET_COUNT m)). key_at (mem m) a \<noteq> k" by blast
    from HashMap_find_miss[OF rel refl this, of oob] show ?thesis by simp
  qed
  show ?thesis
    using r(2) f HashMap_begin_rel[OF rel, of oob] HashMap_end_eq[OF r(2), of oob]
    by (simp add: bucket_at_def HashMap_end_def)
qed

theorem end_reads_out_of_range_witness:
  "bucket_at example_map 3 = None \<and>
   HashMap_end None example_map = IteratorHelper_new None example_map 3 None \<and>
   fst (HashMap_end None example_map) = Some OutOfRange \<and>
   (\<exists>m :: (nat, char) HashMap. HashMap_new 3 (\<lambda>k. k) = Some m \<and>
      fst (HashMap_end None m) = Some OutOfRange \<and>
      map_option fst (HashMap_begin None m) = Some (Some OutOfRange))"
proof -
  have bc: "BUCKET_COUNT example_map = 3" by (simp add: example_map_def)
  from end_reads_out_of_range[OF example_rel, of None 0]
  have A: "bucket_at example_map 3 = None \<and>
   HashMap_end None example_map = IteratorHelper_new None example_map 3 None \<and>
   fst (HashMap_end None example_map) = Some OutOfRange"
    unfolding bc by blast
  from example_empty_new obtain m :: "(nat, char) HashMap" where
    m: "HashMap_new 3 (\<lambda>k::nat. k) = Some m" "HashMap_rel m [[], [], []]"
    by blast
  have "concat [[], [], []] = ([] :: addr list)" by simp
  with end_reads_out_of_range[OF m(2), of None 0]
  have "fst (HashMap_end None m) = Some OutOfRange \<and>
      map_option fst (HashMap_begin None m) = Some (Some OutOfRange)"
    by blast
  with m(1) A show ?thesis by blast
qed

lemma dchain_nth_next:
  "dchain h pr p as l q \<Longrightarrow> j < length as \<Longrightarrow>
     \<exists>n. h (as ! j) = Some n \<and> m_next n = (if Suc j < length as then Some (as ! Suc j) else q)"
proof (induction as arbitrary: pr p j)
  case Nil
  then show ?case by simp
next
  case (Cons a as)
  from Cons.prems(1) obtain n where n: "h a = Some n" "dchain h (Some a) (m_next n) as l q"
    by (auto split: option.splits)
  show ?case
  proof (cases j)
    case 0
    with n dchain_first[OF n(2)] show ?thesis by (cases as) auto
  next
    case (Suc j')
    with Cons.prems(2) have "j' < length as" by simp
    from Cons.IH[OF n(2) this] Suc show ?thesis by auto
  qed
qed

lemma rel_nth_next:
  assumes rel: "HashMap_rel m ass" and i: "i < BUCKET_COUNT m" and j: "j < length (ass ! i)"
  shows "\<exists>n. cells (mem m) (ass ! i ! j) = Some n \<and> m_value n = entry (mem m) (ass ! i ! j) \<and>
           m_next n = (if Suc j < length (ass ! i) then Some (ass ! i ! Suc j)
                       else m_end (m_buckets m ! i))"
proof -
  from Bucket_wf_end[OF relD(4)[OF rel i]] obtain e where e: "m_end (m_buckets m ! i) = Some e"
    by blast
  from relD(4)[OF rel i] e obtain ne where "cells (mem m) e = Some ne" and
    ch: "dchain (cells (mem m)) (Some e) (m_next ne) (ass ! i) (m_prev ne) (Some e)"
    by (auto simp: Bucket_wf_def split: option.splits)
  from dchain_nth_next[OF ch j] e show ?thesis by (auto simp: entry_def)
qed

lemma IteratorHelper_incr_rel:
  assumes rel: "HashMap_rel m ass" and i: "i < BUCKET_COUNT m" and j: "j < length (ass ! i)"
  shows "IteratorHelper_incr m \<lparr>m_index = i, m_ref = \<lparr>m_node = Some (ass ! i ! j)\<rparr>\<rparr> =
     Some (if Suc j < length (ass ! i)
           then \<lparr>m_index = i, m_ref = \<lparr>m_node = Some (ass ! i ! Suc j)\<rparr>\<rparr>
           else if next_nonempty ass (Suc i) \<noteq> BUCKET_COUNT m
           then \<lparr>m_index = next_nonempty ass (Suc i),
                  m_ref = \<lparr>m_node = Some (hd (ass ! next_nonempty ass (Suc i)))\<rparr>\<rparr>
           else \<lparr>m_index = BUCKET_COUNT m, m_ref = \<lparr>m_node = m_end (m_buckets m ! i)\<rparr>\<rparr>)"
proof -
  note r = relD[OF rel]
  from rel_nth_next[OF rel i j] obtain n where n: "cells (mem m) (ass ! i ! j) = Some n"
    and nx: "m_next n = (if Suc j < length (ass ! i) then Some (ass ! i ! Suc j)
                       else m_end (m_buckets m ! i))"
    by blast
  from Bucket_wf_end[OF r(4)[OF i]] obtain e where e: "m_end (m_buckets m ! i) = Some e" "e \<notin> set (ass ! i)"
    by auto
  let ?k = "next_nonempty ass (Suc i)"
  show ?thesis
  proof (cases "Suc j < length (ass ! i)")
    case True
    then have "ass ! i ! Suc j \<in> set (ass ! i)" by simp
    with e have "Some (ass ! i ! Suc j) \<noteq> m_end (m_buckets m ! i)" by auto
    then show ?thesis using True n nx bucket_at_rel[OF rel i]
      by (simp add: IteratorHelper_incr_def deref_def Bucket_end_def)
  next
    case False
    have sk: "skip_empty m (Suc i) = Some ?k" using i by (intro skip_empty_rel[OF rel]) simp
    show ?thesis
    proof (cases "?k \<noteq> BUCKET_COUNT m")
      case True
      with next_nonempty_le[of "Suc i" ass] i r(3) have lt: "?k < BUCKET_COUNT m" by simp
      have nn: "ass ! ?k \<noteq> []" using next_nonempty_nth[of ass "Suc i"] lt r(3) by simp
      have b: "Bucket_begin (mem m) (m_buckets m ! ?k) = Some (Some (hd (ass ! ?k)))"
        using Bucket_begin_wf[OF r(4)[OF lt]] nn by simp
      show ?thesis using False True n nx bucket_at_rel[OF rel i] bucket_at_rel[OF rel lt] sk b
        by (simp add: IteratorHelper_incr_def deref_def Bucket_end_def)
    next
      case k: False
      show ?thesis using False k n nx bucket_at_rel[OF rel i] sk
        by (simp add: IteratorHelper_incr_def deref_def Bucket_end_def)
    qed
  qed
qed

lemma traverse_from_end:
  assumes "length (m_buckets m) = BUCKET_COUNT m"
  shows "traverse_from oob m \<lparr>m_index = BUCKET_COUNT m, m_ref = r\<rparr> = Some []"
  using assms by (subst traverse_from.simps) (simp add: HashMap_end_eq IteratorHelper_eq_def)

lemma traverse_from_rel:
  assumes rel: "HashMap_rel m ass"
  shows "i < BUCKET_COUNT m \<Longrightarrow> j < length (ass ! i) \<Longrightarrow>
     n = (length (ass ! i) - j) + length (concat (drop (Suc i) ass)) \<Longrightarrow>
     traverse_from oob m \<lparr>m_index = i, m_ref = \<lparr>m_node = Some (ass ! i ! j)\<rparr>\<rparr> =
       Some (drop j (map (entry (mem m)) (ass ! i)) @
             concat (drop (Suc i) (HashMap_entries m ass)))"
proof (induction n arbitrary: i j rule: less_induct)
  case (less n)
  note r = relD[OF rel]
  note i = less.prems(1) and j = less.prems(2)
  let ?c = "\<lparr>m_index = i, m_ref = \<lparr>m_node = Some (ass ! i ! j)\<rparr>\<rparr>"
  let ?k = "next_nonempty ass (Suc i)"
  have e: "snd (HashMap_end oob m) = \<lparr>m_index = BUCKET_COUNT m, m_ref = \<lparr>m_node = None\<rparr>\<rparr>"
    using r(2) by (simp add: HashMap_end_eq)
  have ne: "\<not> IteratorHelper_eq m ?c (snd (HashMap_end oob m))"
    using i by (simp add: e IteratorHelper_eq_def)
  from rel_nth_next[OF rel i j] obtain nd where nd: "cells (mem m) (ass ! i ! j) = Some nd"
    "m_value nd = entry (mem m) (ass ! i ! j)" by blast
  have g: "Reference_get_pair (IteratorHelper_deref ?c) (mem m) = Some (entry (mem m) (ass ! i ! j))"
    using Reference_get_pair_node[OF nd(1)] nd(2) by (simp add: IteratorHelper_deref_def)
  have dj: "drop j (map (entry (mem m)) (ass ! i)) =
      entry (mem m) (ass ! i ! j) # drop (Suc j) (map (entry (mem m)) (ass ! i))"
    using j by (simp add: Cons_nth_drop_Suc[symmetric])
  note inc = IteratorHelper_incr_rel[OF rel i j]
  show ?case
  proof (cases "Suc j < length (ass ! i)")
    case True
    have "traverse_from oob m \<lparr>m_index = i, m_ref = \<lparr>m_node = Some (ass ! i ! Suc j)\<rparr>\<rparr> =
        Some (drop (Suc j) (map (entry (mem m)) (ass ! i)) @
              concat (drop (Suc i) (HashMap_entries m ass)))"
      using True less.prems by (intro less.IH[OF _ i True refl]) simp
    then show ?thesis using ne g inc True dj
      by (subst traverse_from.simps) simp
  next
    case False
    then have dr: "drop (Suc j) (map (entry (mem m)) (ass ! i)) = []" by simp
    have cc: "concat (drop ?k (HashMap_entries m ass)) = concat (drop (Suc i) (HashMap_entries m ass))"
    proof -
      have "concat (drop ?k ass) = concat (drop (Suc i) ass)"
        using i r(3) by (intro next_nonempty_concat) simp
      have "map (map (entry (mem m))) (drop ?k ass) = drop ?k (HashMap_entries m ass)"
        by (simp add: HashMap_entries_def drop_map)
      have "concat (drop ?k (HashMap_entries m ass)) =
              map (entry (mem m)) (concat (drop ?k ass))"
        by (simp add: HashMap_entries_def drop_map map_concat)
      also have "\<dots> = map (entry (mem m)) (concat (drop (Suc i) ass))"
        using i r(3) by (simp add: next_nonempty_concat)
      also have "\<dots> = concat (drop (Suc i) (HashMap_entries m ass))"
        by (simp add: HashMap_entries_def drop_map map_concat)
      finally show ?thesis .
    qed
    show ?thesis
    proof (cases "?k \<noteq> BUCKET_COUNT m")
      case True
      with next_nonempty_le[of "Suc i" ass] i r(3) have lt: "?k < BUCKET_COUNT m" by simp
      have nn: "ass ! ?k \<noteq> []" using next_nonempty_nth[of ass "Suc i"] lt r(3) by simp
      then have h: "hd (ass ! ?k) = ass ! ?k ! 0" "0 < length (ass ! ?k)"
        by (simp_all add: hd_conv_nth)
      have gt: "i < ?k" using next_nonempty_ge[of "Suc i" ass] by simp
      have dk: "drop (Suc i) ass = take (?k - Suc i) (drop (Suc i) ass) @ ass ! ?k # drop (Suc ?k) ass"
        using gt lt r(3) by (metis Cons_nth_drop_Suc Suc_leI append_take_drop_id drop_drop le_add_diff_inverse2)
      have "length (concat (drop ?k ass)) = length (concat (drop (Suc i) ass))"
        using i r(3) by (simp add: next_nonempty_concat)
      moreover have "drop ?k ass = ass ! ?k # drop (Suc ?k) ass"
        using lt r(3) by (simp add: Cons_nth_drop_Suc)
      ultimately have meas: "length (ass ! ?k) + length (concat (drop (Suc ?k) ass)) =
          length (concat (drop (Suc i) ass))" by simp
      have "traverse_from oob m \<lparr>m_index = ?k, m_ref = \<lparr>m_node = Some (ass ! ?k ! 0)\<rparr>\<rparr> =
          Some (drop 0 (map (entry (mem m)) (ass ! ?k)) @
                concat (drop (Suc ?k) (HashMap_entries m ass)))"
        using less.prems j meas by (intro less.IH[OF _ lt h(2) refl]) simp
      also have "drop 0 (map (entry (mem m)) (ass ! ?k)) @ concat (drop (Suc ?k) (HashMap_entries m ass))
          = concat (drop ?k (HashMap_entries m ass))"
        using lt r(3) by (simp add: HashMap_entries_def Cons_nth_drop_Suc[symmetric])
      finally have t: "traverse_from oob m \<lparr>m_index = ?k, m_ref = \<lparr>m_node = Some (hd (ass ! ?k))\<rparr>\<rparr> =
          Some (concat (drop (Suc i) (HashMap_entries m ass)))"
        by (simp add: h(1) cc)
      show ?thesis using ne g inc False True dj dr t
        by (subst traverse_from.simps) simp
    next
      case k: False
      then have "concat (drop ?k (HashMap_entries m ass)) = []"
        using r(3) by (simp add: HashMap_entries_def)
      with cc have em: "concat (drop (Suc i) (HashMap_entries m ass)) = []" by simp
      note t = traverse_from_end[OF r(2), of oob "\<lparr>m_node = m_end (m_buckets m ! i)\<rparr>"]
      show ?thesis using ne g inc False k dj dr t em
        by (subst traverse_from.simps) simp
    qed
  qed
qed

lemma HashMap_traverse_rel:
  assumes rel: "HashMap_rel m ass"
  shows "HashMap_traverse oob m = Some (concat (HashMap_entries m ass))"
proof -
  note r = relD[OF rel]
  let ?k = "next_nonempty ass 0"
  show ?thesis
  proof (cases "concat ass = []")
    case True
    then have "concat (HashMap_entries m ass) = []" by (auto simp: HashMap_entries_def)
    then show ?thesis
      using HashMap_begin_rel[OF rel, of oob] True traverse_from_end[OF r(2), of oob]
      by (simp add: HashMap_traverse_def)
  next
    case False
    then have ne: "?k \<noteq> BUCKET_COUNT m" using next_nonempty_BC[of 0 ass] r(3) by simp
    with next_nonempty_le[of 0 ass] r(3) have lt: "?k < BUCKET_COUNT m" by simp
    have nn: "ass ! ?k \<noteq> []" using next_nonempty_nth[of ass 0] lt r(3) by simp
    then have h: "hd (ass ! ?k) = ass ! ?k ! 0" "0 < length (ass ! ?k)"
      by (simp_all add: hd_conv_nth)
    have "traverse_from oob m \<lparr>m_index = ?k, m_ref = \<lparr>m_node = Some (ass ! ?k ! 0)\<rparr>\<rparr> =
          Some (drop 0 (map (entry (mem m)) (ass ! ?k)) @
                concat (drop (Suc ?k) (HashMap_entries m ass)))"
      by (rule traverse_from_rel[OF rel lt h(2) refl])
    also have "drop 0 (map (entry (mem m)) (ass ! ?k)) @ concat (drop (Suc ?k) (HashMap_entries m ass))
          = concat (drop ?k (HashMap_entries m ass))"
      using lt r(3) by (simp add: HashMap_entries_def Cons_nth_drop_Suc[symmetric])
    also have "\<dots> = map (entry (mem m)) (concat (drop ?k ass))"
      by (simp add: HashMap_entries_def drop_map map_concat)
    also have "\<dots> = map (entry (mem m)) (concat (drop 0 ass))"
      using r(3) by (simp add: next_nonempty_concat)
    also have "\<dots> = concat (HashMap_entries m ass)"
      by (simp add: HashMap_entries_def map_concat)
    finally have t: "traverse_from oob m \<lparr>m_index = ?k, m_ref = \<lparr>m_node = Some (ass ! ?k ! 0)\<rparr>\<rparr> =
        Some (concat (HashMap_entries m ass))" .
    have b: "HashMap_begin oob m =
        Some (None, \<lparr>m_index = ?k, m_ref = \<lparr>m_node = Some (hd (ass ! ?k))\<rparr>\<rparr>)"
      using HashMap_begin_rel[OF rel, of oob] False by simp
    show ?thesis using b t h(1) by (simp add: HashMap_traverse_def)
  qed
qed

lemma clear_from_rel:
  "HashMap_rel m ass \<Longrightarrow> i \<le> BUCKET_COUNT m \<Longrightarrow>
     \<exists>m'. clear_from i m = Some m' \<and>
       HashMap_rel m' (take i ass @ replicate (BUCKET_COUNT m - i) []) \<and>
       BUCKET_COUNT m' = BUCKET_COUNT m \<and> m_hasher m' = m_hasher m"
proof (induction i m arbitrary: ass rule: clear_from.induct)
  case (1 i m)
  note rel = "1.prems"(1)
  note r = relD[OF rel]
  show ?case
  proof (cases "i < BUCKET_COUNT m")
    case True
    let ?b = "m_buckets m ! i"
    from Bucket_wf_end[OF r(4)[OF True]] obtain e where e: "m_end ?b = Some e" by auto
    from Bucket_clear_wf[OF r(4)[OF True] e]
    obtain s' where c: "Bucket_clear (mem m) ?b = Some (s', ?b\<lparr>m_size := 0\<rparr>)"
      and wf': "Bucket_wf s' (?b\<lparr>m_size := 0\<rparr>) []" and b': "brk s' = brk (mem m)"
      and fr: "\<forall>x. x \<noteq> e \<and> x \<notin> set (ass ! i) \<longrightarrow> cells s' x = cells (mem m) x"
      by blast
    let ?m1 = "set_bucket i (?b\<lparr>m_size := 0\<rparr>) s' m"
    have rel1: "HashMap_rel ?m1 (ass[i := []])"
    proof (rule HashMap_rel_update[OF rel True wf'])
      show "m_end (?b\<lparr>m_size := 0\<rparr>) = m_end ?b" by simp
      show "brk (mem m) \<le> brk s'" using b' by simp
      show "\<forall>a\<in>set []. a < brk s' \<and> (a \<in> set (ass ! i) \<or> brk (mem m) \<le> a)" by simp
      show "distinct (map (key_at s') [])" by simp
      show "\<forall>a\<in>set []. m_hasher m (key_at s' a) mod BUCKET_COUNT m = i" by simp
      show "\<forall>a. a < brk (mem m) \<and> a \<notin> cellset ?b (ass ! i) \<longrightarrow> cells s' a = cells (mem m) a"
        using fr e by (auto simp: cellset_def)
    qed
    have "\<exists>m'. clear_from (Suc i) ?m1 = Some m' \<and>
       HashMap_rel m' (take (Suc i) (ass[i := []]) @ replicate (BUCKET_COUNT ?m1 - Suc i) []) \<and>
       BUCKET_COUNT m' = BUCKET_COUNT ?m1 \<and> m_hasher m' = m_hasher ?m1"
      using True bucket_at_rel[OF rel True] c rel1 by (intro "1.IH") auto
    then obtain m' where m': "clear_from (Suc i) ?m1 = Some m'"
      "HashMap_rel m' (take (Suc i) (ass[i := []]) @ replicate (BUCKET_COUNT m - Suc i) [])"
      "BUCKET_COUNT m' = BUCKET_COUNT m" "m_hasher m' = m_hasher m"
      by auto
    have "take (Suc i) (ass[i := []]) @ replicate (BUCKET_COUNT m - Suc i) [] =
          take i ass @ replicate (BUCKET_COUNT m - i) []"
    proof -
      have "BUCKET_COUNT m - i = Suc (BUCKET_COUNT m - Suc i)" using True by simp
      then have "replicate (BUCKET_COUNT m - i) ([] :: addr list) =
          [] # replicate (BUCKET_COUNT m - Suc i) []"
        by (simp only: replicate_Suc)
      then show ?thesis using True r(3) by (simp add: take_Suc_conv_app_nth)
    qed
    with m'(2) have rel': "HashMap_rel m' (take i ass @ replicate (BUCKET_COUNT m - i) [])" by simp
    have "clear_from i m = Some m'"
      using True bucket_at_rel[OF rel True] c m'(1) by (subst clear_from.simps) simp
    with rel' m'(3,4) show ?thesis by blast
  next
    case False
    with "1.prems" r(3) rel show ?thesis by (subst clear_from.simps) simp
  qed
qed

lemma HashMap_clear_rel:
  assumes rel: "HashMap_rel m ass"
  shows "\<exists>m'. HashMap_clear m = Some m' \<and> HashMap_rel m' (map (\<lambda>as. []) ass) \<and>
           BUCKET_COUNT m' = BUCKET_COUNT m \<and> m_hasher m' = m_hasher m"
proof -
  have "map (\<lambda>as. []) ass = replicate (BUCKET_COUNT m) ([] :: addr list)"
    using relD(3)[OF rel] by (simp add: map_replicate_const)
  with clear_from_rel[OF rel, of 0] show ?thesis by (simp add: HashMap_clear_def)
qed

lemma entries_length: "length (HashMap_entries m ass) = length ass"
  by (simp add: HashMap_entries_def)

lemma HashMap_subscript_old:
  assumes rel: "HashMap_rel m ass"
    and p: "(k, v1) \<in> set (concat (HashMap_entries m ass))"
  shows "\<exists>a nd. cells (mem m) a = Some nd \<and> m_value nd = (k, v1) \<and>
           HashMap_subscript oob k m = Some (m, \<lparr>m_node = Some a\<rparr>)"
proof -
  let ?i = "m_hasher m k mod BUCKET_COUNT m"
  note r = relD[OF rel]
  have il: "?i < BUCKET_COUNT m" by (rule hash_lt[OF rel])
  from p pair_in_entries[OF rel, of k v1]
  obtain a where a: "a \<in> set (ass ! ?i)" "entry (mem m) a = (k, v1)" by blast
  from rel_alloc[OF rel il a(1)] a(2)
  obtain nd where nd: "cells (mem m) a = Some nd" "m_value nd = (k, v1)" by auto
  have ka: "key_at (mem m) a = k" using a(2) by (simp add: key_at_def)
  note f = HashMap_find_hit[OF rel refl a(1) ka, of oob]
  have e: "snd (HashMap_end oob m) = \<lparr>m_index = BUCKET_COUNT m, m_ref = \<lparr>m_node = None\<rparr>\<rparr>"
    using r(2) by (simp add: HashMap_end_eq)
  have ne: "\<not> IteratorHelper_eq m \<lparr>m_index = ?i, m_ref = \<lparr>m_node = Some a\<rparr>\<rparr> (snd (HashMap_end oob m))"
    using il by (simp add: e IteratorHelper_eq_def)
  have "HashMap_subscript oob k m = Some (m, \<lparr>m_node = Some a\<rparr>)"
    using f ne by (simp add: HashMap_subscript_def IteratorHelper_deref_def)
  with nd show ?thesis by blast
qed

lemma HashMap_subscript_new:
  assumes rel: "HashMap_rel m ass"
    and ab: "k \<notin> fst ` set (concat (HashMap_entries m ass))"
    and ins: "HashMap_insert oob (k, default) m = Some (m', (f, it), True)"
  shows "HashMap_subscript oob k m = Some (m', IteratorHelper_deref it)"
proof -
  let ?i = "m_hasher m k mod BUCKET_COUNT m"
  note r = relD[OF rel]
  have ab': "\<forall>a\<in>set (ass ! ?i). key_at (mem m) a \<noteq> k"
    using ab key_in_entries[OF rel, of k] by blast
  note f = HashMap_find_miss[OF rel refl ab', of oob]
  have e: "snd (HashMap_end oob m) = \<lparr>m_index = BUCKET_COUNT m, m_ref = \<lparr>m_node = None\<rparr>\<rparr>"
    using r(2) by (simp add: HashMap_end_eq)
  have eq: "IteratorHelper_eq m \<lparr>m_index = BUCKET_COUNT m,
      m_ref = \<lparr>m_node = m_end (m_buckets m ! ?i)\<rparr>\<rparr> (snd (HashMap_end oob m))"
    by (simp add: e IteratorHelper_eq_def)
  show ?thesis using f eq ins by (simp add: HashMap_subscript_def)
qed

lemma filter_absent:
  assumes "k \<notin> fst ` set (concat ess)"
  shows "map (filter (\<lambda>p. fst p \<noteq> k)) ess = ess"
proof -
  have "filter (\<lambda>p. fst p \<noteq> k) es = es" if "es \<in> set ess" for es
    using assms that by (auto simp: filter_id_conv image_iff)
  then show ?thesis by (simp add: map_idI)
qed

lemma spec_append_entries:
  assumes rel: "HashMap_rel m ass"
  shows "spec_append (m_hasher m) (k, v) (HashMap_entries m ass) =
         (HashMap_entries m ass)[m_hasher m k mod BUCKET_COUNT m :=
            HashMap_entries m ass ! (m_hasher m k mod BUCKET_COUNT m) @ [(k, v)]]"
  using relD(3)[OF rel] by (simp add: spec_append_def entries_length)

lemma apply_operation_rel:
  assumes rel: "HashMap_rel m ass"
  shows "\<exists>m' ass'. apply_operation oob x m = Some m' \<and> HashMap_rel m' ass' \<and>
           HashMap_entries m' ass' = spec_apply (m_hasher m) x (HashMap_entries m ass) \<and>
           BUCKET_COUNT m' = BUCKET_COUNT m \<and> m_hasher m' = m_hasher m"
proof (cases x)
  case (Insert k v)
  show ?thesis
  proof (cases "k \<in> fst ` set (concat (HashMap_entries m ass))")
    case True
    then obtain v1 where "(k, v1) \<in> set (concat (HashMap_entries m ass))" by force
    from HashMap_insert_old[OF rel this, of oob v] True rel Insert show ?thesis by force
  next
    case False
    from HashMap_insert_new[OF rel False, of oob v] False Insert spec_append_entries[OF rel, of k v]
    show ?thesis by force
  qed
next
  case (Insert_or_assign k v)
  show ?thesis
  proof (cases "k \<in> fst ` set (concat (HashMap_entries m ass))")
    case True
    then obtain v1 where p: "(k, v1) \<in> set (concat (HashMap_entries m ass))" by force
    let ?i = "m_hasher m k mod BUCKET_COUNT m"
    from HashMap_insert_or_assign_old[OF rel p, of oob v]
    obtain a nd where a: "a \<in> set (ass ! ?i)" and nd: "cells (mem m) a = Some nd" "m_value nd = (k, v1)"
      and res: "HashMap_insert_or_assign oob (k, v) m =
             Some (m\<lparr>mem := (mem m)\<lparr>cells := (cells (mem m))(a \<mapsto> nd\<lparr>m_value := (k, v)\<rparr>)\<rparr>\<rparr>,
                   (None, \<lparr>m_index = ?i, m_ref = \<lparr>m_node = Some a\<rparr>\<rparr>))"
      by blast
    let ?m' = "m\<lparr>mem := (mem m)\<lparr>cells := (cells (mem m))(a \<mapsto> nd\<lparr>m_value := (k, v)\<rparr>)\<rparr>\<rparr>"
    have rel': "HashMap_rel ?m' ass"
      using nd by (intro HashMap_rel_store[OF rel hash_lt[OF rel] a]) auto
    have en: "HashMap_entries ?m' ass =
        map (map (\<lambda>p. if fst p = k then (k, v) else p)) (HashMap_entries m ass)"
      using nd by (intro HashMap_entries_store[OF rel a]) auto
    have "apply_operation oob x m = Some ?m'" using res Insert_or_assign by simp
    moreover have "spec_apply (m_hasher m) x (HashMap_entries m ass) =
        map (map (\<lambda>p. if fst p = k then (k, v) else p)) (HashMap_entries m ass)"
      using True Insert_or_assign by simp
    ultimately show ?thesis using rel' en by force
  next
    case False
    from HashMap_insert_new[OF rel False, of oob v]
    obtain m' it where ins: "HashMap_insert oob (k, v) m = Some (m', (None, it), True)"
      and rel': "HashMap_rel m' (ass[m_hasher m k mod BUCKET_COUNT m :=
                               ass ! (m_hasher m k mod BUCKET_COUNT m) @ [brk (mem m)]])"
      and en: "HashMap_entries m' (ass[m_hasher m k mod BUCKET_COUNT m :=
                               ass ! (m_hasher m k mod BUCKET_COUNT m) @ [brk (mem m)]]) =
             (HashMap_entries m ass)[m_hasher m k mod BUCKET_COUNT m :=
                HashMap_entries m ass ! (m_hasher m k mod BUCKET_COUNT m) @ [(k, v)]]"
      and same: "BUCKET_COUNT m' = BUCKET_COUNT m" "m_hasher m' = m_hasher m"
      by blast
    from HashMap_insert_or_assign_new[OF rel False ins]
    have "apply_operation oob x m = Some m'" using Insert_or_assign by simp
    moreover have "spec_apply (m_hasher m) x (HashMap_entries m ass) =
        (HashMap_entries m ass)[m_hasher m k mod BUCKET_COUNT m :=
                HashMap_entries m ass ! (m_hasher m k mod BUCKET_COUNT m) @ [(k, v)]]"
      using False Insert_or_assign spec_append_entries[OF rel, of k v] by simp
    ultimately show ?thesis using rel' en same by force
  qed
next
  case (Erase k)
  show ?thesis
  proof (cases "k \<in> fst ` set (concat (HashMap_entries m ass))")
    case True
    from HashMap_erase_present[OF rel True] Erase show ?thesis by force
  next
    case False
    from HashMap_erase_absent[OF rel False] filter_absent[OF False] rel Erase
    show ?thesis by force
  qed
next
  case (Subscript k)
  show ?thesis
  proof (cases "k \<in> fst ` set (concat (HashMap_entries m ass))")
    case True
    then obtain v1 where "(k, v1) \<in> set (concat (HashMap_entries m ass))" by force
    from HashMap_subscript_old[OF rel this, of oob] True rel Subscript show ?thesis by force
  next
    case False
    from HashMap_insert_new[OF rel False, of oob default]
    obtain m' it where ins: "HashMap_insert oob (k, default) m = Some (m', (None, it), True)"
      and rel': "HashMap_rel m' (ass[m_hasher m k mod BUCKET_COUNT m :=
                               ass ! (m_hasher m k mod BUCKET_COUNT m) @ [brk (mem m)]])"
      and en: "HashMap_entries m' (ass[m_hasher m k mod BUCKET_COUNT m :=
                               ass ! (m_hasher m k mod BUCKET_COUNT m) @ [brk (mem m)]]) =
             (HashMap_entries m ass)[m_hasher m k mod BUCKET_COUNT m :=
                HashMap_entries m ass ! (m_hasher m k mod BUCKET_COUNT m) @ [(k, default)]]"
      and same: "BUCKET_COUNT m' = BUCKET_COUNT m" "m_hasher m' = m_hasher m"
      by blast
    from HashMap_subscript_new[OF rel False ins]
    have "apply_operation oob x m = Some m'" using Subscript by simp
    moreover have "spec_apply (m_hasher m) x (HashMap_entries m ass) =
        (HashMap_entries m ass)[m_hasher m k mod BUCKET_COUNT m :=
                HashMap_entries m ass ! (m_hasher m k mod BUCKET_COUNT m) @ [(k, default)]]"
      using False Subscript spec_append_entries[OF rel, of k default] by simp
    ultimately show ?thesis using rel' en same by force
  qed
next
  case Clear
  from HashMap_clear_rel[OF rel] Clear show ?thesis
    by (force simp: HashMap_entries_def)
qed

lemma run_rel:
  "HashMap_rel m ass \<Longrightarrow>
     \<exists>m' ass'. run oob ops m = Some m' \<and> HashMap_rel m' ass' \<and>
       HashMap_entries m' ass' = spec_run (m_hasher m) ops (HashMap_entries m ass) \<and>
       BUCKET_COUNT m' = BUCKET_COUNT m \<and> m_hasher m' = m_hasher m"
proof (induction ops arbitrary: m ass)
  case Nil
  then show ?case by (auto simp: spec_run_def)
next
  case (Cons x xs)
  from apply_operation_rel[OF Cons.prems, of oob x]
  obtain m1 ass1 where 1: "apply_operation oob x m = Some m1" "HashMap_rel m1 ass1"
    "HashMap_entries m1 ass1 = spec_apply (m_hasher m) x (HashMap_entries m ass)"
    "BUCKET_COUNT m1 = BUCKET_COUNT m" "m_hasher m1 = m_hasher m"
    by blast
  from Cons.IH[OF 1(2)]
  obtain m' ass' where 2: "run oob xs m1 = Some m'" "HashMap_rel m' ass'"
    "HashMap_entries m' ass' = spec_run (m_hasher m1) xs (HashMap_entries m1 ass1)"
    "BUCKET_COUNT m' = BUCKET_COUNT m1" "m_hasher m' = m_hasher m1"
    by blast
  have "run oob (x # xs) m = Some m'" using 1(1) 2(1) by simp
  moreover have "HashMap_entries m' ass' = spec_run (m_hasher m) (x # xs) (HashMap_entries m ass)"
    using 1(3,5) 2(3) by (simp add: spec_run_def)
  ultimately show ?case using 2(2,4,5) 1(4,5) by auto
qed

lemma concat_indexed:
  assumes idx: "\<And>j x. j < length xss \<Longrightarrow> x \<in> set (xss ! j) \<Longrightarrow> f x = j"
  shows "i \<le> length xss \<Longrightarrow>
     sorted (map f (concat (drop i xss))) \<and> (\<forall>x\<in>set (concat (drop i xss)). i \<le> f x)"
proof (induction "length xss - i" arbitrary: i)
  case 0
  then show ?case by simp
next
  case (Suc d)
  then have i: "i < length xss" by simp
  have d: "drop i xss = xss ! i # drop (Suc i) xss" using i by (simp add: Cons_nth_drop_Suc)
  from Suc.hyps(1)[of "Suc i"] Suc.hyps(2) i
  have IH: "sorted (map f (concat (drop (Suc i) xss)))"
    "\<forall>x\<in>set (concat (drop (Suc i) xss)). Suc i \<le> f x"
    by auto
  have here: "\<forall>x\<in>set (xss ! i). f x = i" using idx[OF i] by simp
  have ge: "i \<le> f x" if "x \<in> set (concat (drop (Suc i) xss))" for x
    using IH(2)[rule_format, OF that] by simp
  have s: "sorted (map f (xss ! i))"
    using here by (simp add: sorted_iff_nth_mono)
  have "sorted (map f (xss ! i) @ map f (concat (drop (Suc i) xss)))"
    unfolding sorted_append using s IH(1) here ge by auto
  moreover have "\<forall>x\<in>set (xss ! i @ concat (drop (Suc i) xss)). i \<le> f x"
    using here ge by auto
  ultimately show ?case by (simp add: d)
qed

lemma concat_indexed_distinct:
  assumes idx: "\<And>j x. j < length xss \<Longrightarrow> x \<in> set (xss ! j) \<Longrightarrow> f (g x) = j"
    and dis: "\<And>j. j < length xss \<Longrightarrow> distinct (map g (xss ! j))"
  shows "i \<le> length xss \<Longrightarrow>
     distinct (map g (concat (drop i xss))) \<and> (\<forall>x\<in>set (concat (drop i xss)). i \<le> f (g x))"
proof (induction "length xss - i" arbitrary: i)
  case 0
  then show ?case by simp
next
  case (Suc d)
  then have i: "i < length xss" by simp
  have d: "drop i xss = xss ! i # drop (Suc i) xss" using i by (simp add: Cons_nth_drop_Suc)
  from Suc.hyps(1)[of "Suc i"] Suc.hyps(2) i
  have IH: "distinct (map g (concat (drop (Suc i) xss)))"
    "\<forall>x\<in>set (concat (drop (Suc i) xss)). Suc i \<le> f (g x)"
    by auto
  have here: "\<forall>x\<in>set (xss ! i). f (g x) = i" using idx[OF i] by simp
  have "g ` set (xss ! i) \<inter> g ` set (concat (drop (Suc i) xss)) = {}"
  proof (rule ccontr)
    assume "g ` set (xss ! i) \<inter> g ` set (concat (drop (Suc i) xss)) \<noteq> {}"
    then obtain x y where "x \<in> set (xss ! i)" "y \<in> set (concat (drop (Suc i) xss))" "g x = g y"
      by auto
    with here IH(2) show False by (metis Suc_n_not_le_n)
  qed
  then have "distinct (map g (xss ! i) @ map g (concat (drop (Suc i) xss)))"
    using IH(1) dis[OF i] by simp
  moreover have ge: "i \<le> f (g x)" if "x \<in> set (concat (drop (Suc i) xss))" for x
    using IH(2)[rule_format, OF that] by simp
  then have "\<forall>x\<in>set (xss ! i @ concat (drop (Suc i) xss)). i \<le> f (g x)"
    using here by auto
  ultimately show ?case by (simp add: d)
qed

lemma rel_distinct_keys:
  assumes rel: "HashMap_rel m ass"
  shows "distinct (map (key_at (mem m)) (concat ass))"
proof -
  note r = relD[OF rel]
  have "distinct (map (key_at (mem m)) (concat (drop 0 ass))) \<and>
        (\<forall>x\<in>set (concat (drop 0 ass)). 0 \<le> m_hasher m (key_at (mem m) x) mod BUCKET_COUNT m)"
    using r(3,5,6)
    by (intro concat_indexed_distinct[where f = "\<lambda>k. m_hasher m k mod BUCKET_COUNT m"]) auto
  then show ?thesis by simp
qed

lemma entries_keys:
  "map fst (concat (HashMap_entries m ass)) = map (key_at (mem m)) (concat ass)"
  by (simp add: HashMap_entries_def map_concat key_at_def[abs_def] comp_def)

lemma rel_sorted_buckets:
  assumes rel: "HashMap_rel m ass"
  shows "sorted (map (\<lambda>p. m_hasher m (fst p) mod BUCKET_COUNT m) (concat (HashMap_entries m ass)))"
proof -
  note r = relD[OF rel]
  have "sorted (map (\<lambda>a. m_hasher m (key_at (mem m) a) mod BUCKET_COUNT m) (concat (drop 0 ass))) \<and>
        (\<forall>x\<in>set (concat (drop 0 ass)). 0 \<le> m_hasher m (key_at (mem m) x) mod BUCKET_COUNT m)"
    using r(3,6) by (intro concat_indexed) auto
  then have "sorted (map (\<lambda>a. m_hasher m (key_at (mem m) a) mod BUCKET_COUNT m) (concat ass))"
    by simp
  moreover have "map (\<lambda>p. m_hasher m (fst p) mod BUCKET_COUNT m) (concat (HashMap_entries m ass)) =
      map (\<lambda>a. m_hasher m (key_at (mem m) a) mod BUCKET_COUNT m) (concat ass)"
    by (simp add: HashMap_entries_def map_concat key_at_def comp_def)
  ultimately show ?thesis by simp
qed

text \<open>
  Claim C5. After every sequence of \<open>insert\<close>, \<open>insert_or_assign\<close>, \<open>erase\<close>, \<open>operator[]\<close> and
  \<open>clear\<close> on the map that the constructor builds, the sequence returns a map in which the
  buckets hold well-formed lists \<open>ass ! i\<close> of nodes, every key is the key of exactly one
  node, the node of a key lies in the bucket \<open>hash(key) mod BUCKET_COUNT\<close>, the count of each
  bucket is the number of its nodes and \<open>size()\<close> is the sum of these numbers.
\<close>

theorem invariants_after_operations:
  assumes "0 < n"
  shows "\<exists>m ass. HashMap_new n h \<bind> run oob ops = Some m \<and>
           BUCKET_COUNT m = n \<and> length (m_buckets m) = n \<and> length ass = n \<and>
           (\<forall>i<n. Bucket_wf (mem m) (m_buckets m ! i) (ass ! i) \<and>
                   Bucket_size (m_buckets m ! i) = length (ass ! i)) \<and>
           distinct (map (key_at (mem m)) (concat ass)) \<and>
           (\<forall>i<n. \<forall>a\<in>set (ass ! i). m_hasher m (key_at (mem m) a) mod n = i) \<and>
           HashMap_size m = Some (sum_list (map length ass)) \<and>
           HashMap_rel m ass \<and>
           HashMap_entries m ass = spec_run h ops (replicate n [])"
proof -
  from HashMap_new_rel[OF assms, of h]
  obtain m0 :: "('a, 'b) HashMap" where m0: "HashMap_new n h = Some m0"
    "HashMap_rel m0 (replicate n [])" "BUCKET_COUNT m0 = n" "m_hasher m0 = h"
    by blast
  from run_rel[OF m0(2), of oob ops]
  obtain m ass where m: "run oob ops m0 = Some m" "HashMap_rel m ass"
    "HashMap_entries m ass = spec_run (m_hasher m0) ops (HashMap_entries m0 (replicate n []))"
    "BUCKET_COUNT m = BUCKET_COUNT m0" "m_hasher m = m_hasher m0"
    by blast
  note r = relD[OF m(2)]
  have bc: "BUCKET_COUNT m = n" using m(4) m0(3) by simp
  have e0: "HashMap_entries m0 (replicate n []) = replicate n []"
    by (simp add: HashMap_entries_def)
  have 1: "HashMap_new n h \<bind> run oob ops = Some m" using m0(1) m(1) by simp
  have 2: "\<forall>i<n. Bucket_wf (mem m) (m_buckets m ! i) (ass ! i) \<and>
                   Bucket_size (m_buckets m ! i) = length (ass ! i)"
    using r(4) bc Bucket_wf_size by (auto simp: Bucket_size_def)
  have 3: "\<forall>i<n. \<forall>a\<in>set (ass ! i). m_hasher m (key_at (mem m) a) mod n = i"
    using r(6) bc by auto
  have 4: "HashMap_size m = Some (sum_list (map length ass))"
    using HashMap_size_rel[OF m(2)] by (simp add: length_concat)
  have 5: "HashMap_entries m ass = spec_run h ops (replicate n [])"
    using m(3) m0(4) e0 by simp
  from 1 bc r(2,3) 2 rel_distinct_keys[OF m(2)] 3 4 m(2) 5 show ?thesis by auto
qed

text \<open>
  Claim C6. In a well-formed map the traversal from \<open>begin()\<close> to \<open>end()\<close> returns; it visits
  the pairs of the map, each key once, bucket after bucket in ascending index and inside a
  bucket in the order of the list. After every sequence of operations on a new map this order
  is the order of insertion: the traversal gives the contents as the specification's model
  keeps them, where a new pair goes to the tail of its bucket.
\<close>

theorem traversal_order:
  "(HashMap_rel m ass \<longrightarrow>
      HashMap_traverse oob m = Some (concat (HashMap_entries m ass)) \<and>
      distinct (map fst (concat (HashMap_entries m ass))) \<and>
      sorted (map (\<lambda>p. m_hasher m (fst p) mod BUCKET_COUNT m) (concat (HashMap_entries m ass))) \<and>
      (\<forall>i<BUCKET_COUNT m. Bucket_wf (mem m) (m_buckets m ! i) (ass ! i))) \<and>
   (0 < n \<longrightarrow>
      (\<exists>m' :: ('k::default, 'v::default) HashMap. HashMap_new n h \<bind> run oob ops = Some m' \<and>
         HashMap_traverse oob m' = Some (concat (spec_run h ops (replicate n [])))))"
proof (intro conjI impI)
  assume rel: "HashMap_rel m ass"
  show "HashMap_traverse oob m = Some (concat (HashMap_entries m ass))"
    by (rule HashMap_traverse_rel[OF rel])
  show "distinct (map fst (concat (HashMap_entries m ass)))"
    using rel_distinct_keys[OF rel] by (simp only: entries_keys)
  show "sorted (map (\<lambda>p. m_hasher m (fst p) mod BUCKET_COUNT m) (concat (HashMap_entries m ass)))"
    by (rule rel_sorted_buckets[OF rel])
  show "\<forall>i<BUCKET_COUNT m. Bucket_wf (mem m) (m_buckets m ! i) (ass ! i)"
    using relD(4)[OF rel] by simp
next
  assume n: "0 < n"
  from HashMap_new_rel[OF n, of h]
  obtain m0 :: "('k, 'v) HashMap" where m0: "HashMap_new n h = Some m0"
    "HashMap_rel m0 (replicate n [])" "BUCKET_COUNT m0 = n" "m_hasher m0 = h"
    by blast
  from run_rel[OF m0(2), of oob ops]
  obtain m' ass' where m': "run oob ops m0 = Some m'" "HashMap_rel m' ass'"
    "HashMap_entries m' ass' = spec_run (m_hasher m0) ops (HashMap_entries m0 (replicate n []))"
    by blast
  have e0: "HashMap_entries m0 (replicate n []) = replicate n []"
    by (simp add: HashMap_entries_def)
  have "HashMap_traverse oob m' = Some (concat (spec_run h ops (replicate n [])))"
    using HashMap_traverse_rel[OF m'(2), of oob] m'(3) m0(4) e0 by simp
  with m0(1) m'(1) show "\<exists>m' :: ('k, 'v) HashMap. HashMap_new n h \<bind> run oob ops = Some m' \<and>
         HashMap_traverse oob m' = Some (concat (spec_run h ops (replicate n [])))"
    by auto
qed

lemma entries_lengths: "map length (HashMap_entries m ass) = map length ass"
  by (simp add: HashMap_entries_def)

lemma example_spec_run:
  "spec_run (\<lambda>k::nat. k)
     [Insert 1 CHR ''A'', Insert 2 CHR ''B'', Insert 4 CHR ''D'', Insert 4 CHR ''Z'', Erase 7]
     (replicate 3 []) = [[], [(1, CHR ''A''), (4, CHR ''D'')], [(2, CHR ''B'')]]"
  by code_simp

theorem invariants_after_operations_witness:
  "\<exists>(m :: (nat, char) HashMap) ass.
     HashMap_new 3 (\<lambda>k. k) \<bind>
       run None [Insert 1 CHR ''A'', Insert 2 CHR ''B'', Insert 4 CHR ''D'', Insert 4 CHR ''Z'', Erase 7]
       = Some m \<and>
     HashMap_rel m ass \<and>
     HashMap_entries m ass = [[], [(1, CHR ''A''), (4, CHR ''D'')], [(2, CHR ''B'')]] \<and>
     distinct (map (key_at (mem m)) (concat ass)) \<and>
     HashMap_size m = Some 3"
proof -
  let ?ops = "[Insert 1 CHR ''A'', Insert 2 CHR ''B'', Insert 4 CHR ''D'', Insert 4 CHR ''Z'', Erase (7::nat)]"
  have n: "0 < (3::nat)" by simp
  from invariants_after_operations[OF n, of "\<lambda>k::nat. k" None ?ops]
  obtain m :: "(nat, char) HashMap" and ass where 1:
    "HashMap_new 3 (\<lambda>k. k) \<bind> run None ?ops = Some m"
    "distinct (map (key_at (mem m)) (concat ass))"
    "HashMap_size m = Some (sum_list (map length ass))"
    "HashMap_rel m ass"
    "HashMap_entries m ass = spec_run (\<lambda>k. k) ?ops (replicate 3 [])"
    by blast
  from 1(5) have e: "HashMap_entries m ass = [[], [(1, CHR ''A''), (4, CHR ''D'')], [(2, CHR ''B'')]]"
    by (simp only: example_spec_run)
  have "map length ass = map length (HashMap_entries m ass)" by (simp only: entries_lengths)
  with e have "sum_list (map length ass) = 3" by simp
  with 1 e show ?thesis by auto
qed

theorem traversal_order_witness:
  "HashMap_traverse None example_map = Some [(1, CHR ''A''), (4, CHR ''D''), (2, CHR ''B'')] \<and>
   (\<exists>m' :: (nat, char) HashMap.
      HashMap_new 3 (\<lambda>k. k) \<bind>
        run None [Insert 1 CHR ''A'', Insert 2 CHR ''B'', Insert 4 CHR ''D'', Insert 4 CHR ''Z'', Erase 7]
        = Some m' \<and>
      HashMap_traverse None m' = Some [(1, CHR ''A''), (4, CHR ''D''), (2, CHR ''B'')])"
proof -
  let ?ops = "[Insert 1 CHR ''A'', Insert 2 CHR ''B'', Insert 4 CHR ''D'', Insert 4 CHR ''Z'', Erase (7::nat)]"
  note t = traversal_order[of example_map example_chains None 3 "\<lambda>k::nat. k" ?ops]
  from t example_rel
  have A: "HashMap_traverse None example_map = Some (concat (HashMap_entries example_map example_chains))"
    by blast
  have n: "0 < (3::nat)" by simp
  from t n obtain m' :: "(nat, char) HashMap" where
    B: "HashMap_new 3 (\<lambda>k. k) \<bind> run None ?ops = Some m'"
       "HashMap_traverse None m' = Some (concat (spec_run (\<lambda>k. k) ?ops (replicate 3 [])))"
    by blast
  from A have "HashMap_traverse None example_map = Some [(1, CHR ''A''), (4, CHR ''D''), (2, CHR ''B'')]"
    by (simp add: example_entries)
  moreover from B(2) have "HashMap_traverse None m' = Some [(1, CHR ''A''), (4, CHR ''D''), (2, CHR ''B'')]"
    by (simp only: example_spec_run) simp
  ultimately show ?thesis using B(1) by blast
qed

end
